theory Spec2Isabelle
  imports Main "HOL-Library.AList"
begin

section \<open>The template engine of build.js\<close>

text \<open>
  The development embeds the three functions of the template engine,
  \<^verbatim>\<open>resolvePath\<close>, \<^verbatim>\<open>findBlockEnd\<close> and \<^verbatim>\<open>render\<close>.

  A template is a \<open>string\<close>; a character stands for one code unit in the range 0..255,
  and the class \<^verbatim>\<open>\s\<close> is its seven members in that range.

  The engine runs on the built-in objects of its host: a property read that finds no
  own property goes on to the prototype of the value read, and the registry of partials
  is an object like any other. What the built-in prototypes hold is no part of the
  repository; it is the parameter \<open>H\<close> of every function below.
\<close>

subsection \<open>Values\<close>

text \<open>
  The values of \<^verbatim>\<open>JSON.parse\<close> and \<^verbatim>\<open>undefined\<close>, with \<open>Num\<close> for the numbers that are
  integers, and \<open>Host x\<close> for every other value a property read can give: a function, a
  prototype object, \<^verbatim>\<open>NaN\<close>, an infinity, a number with a fraction. The name \<open>x\<close> tells
  such values apart; what they do is the host's part.
\<close>

datatype jsval =
    Undefined
  | Null
  | Bool bool
  | Num int
  | Str string
  | Arr "jsval list"
  | Obj "(string \<times> jsval) list"
  | Host string

text \<open>The exception of a property read on \<^verbatim>\<open>undefined\<close> or \<^verbatim>\<open>null\<close>, of a call of what is
  no function, and of the accessors of the host that throw.\<close>

datatype error = TypeError

type_synonym obj = "(string \<times> jsval) list"

subsection \<open>The host\<close>

text \<open>What a member of a built-in object can be: no array and no object of the data.\<close>

datatype atom = AUndefined | ANull | ABool bool | ANum int | AStr string | AHost string

fun ofAtom :: "atom \<Rightarrow> jsval" where
  "ofAtom AUndefined = Undefined"
| "ofAtom ANull = Null"
| "ofAtom (ABool b) = Bool b"
| "ofAtom (ANum n) = Num n"
| "ofAtom (AStr s) = Str s"
| "ofAtom (AHost x) = Host x"

text \<open>Whose prototype chain a read goes up: that of a primitive's wrapper, of an array,
  of a plain object, or of the host value \<open>x\<close> (its own members included).\<close>

datatype receiver = OfBoolean | OfNumber | OfString | OfArray | OfObject | OfHost string

text \<open>
  \<^item> \<open>inherited c key\<close>: the read of \<open>key\<close> on a value of class \<open>c\<close> that has no own
    property \<open>key\<close>: \<open>None\<close> where the chain has no such member, the member's value, or
    the exception its accessor throws.
  \<^item> \<open>hostTruthy x\<close>: the coercion of the host value to a boolean.
  \<^item> \<open>hostElements x\<close>: the elements when \<^verbatim>\<open>Array.isArray\<close> holds of the host value.
  \<^item> \<open>hostToString x\<close>, \<open>numberToString n\<close> and \<open>objectToString kvs\<close>: \<^verbatim>\<open>String(val)\<close> of a
    host value, of a number, and of a mapping with the own properties \<open>kvs\<close>.
  \<^item> \<open>nonStringTemplate v\<close>: what \<^verbatim>\<open>render\<close> returns when its template is the value \<open>v\<close>
    and not a string, as happens for a partial name found on the prototype of the
    registry: the loop tests \<^verbatim>\<open>v.length > 0\<close> and, inside, calls \<^verbatim>\<open>v.indexOf\<close>.
\<close>

record host =
  inherited :: "receiver \<Rightarrow> string \<Rightarrow> (error + atom) option"
  hostTruthy :: "string \<Rightarrow> bool"
  hostElements :: "string \<Rightarrow> atom list option"
  hostToString :: "string \<Rightarrow> error + string"
  numberToString :: "int \<Rightarrow> string"
  objectToString :: "obj \<Rightarrow> error + string"
  nonStringTemplate :: "jsval \<Rightarrow> error + string"

text \<open>The coercion of \<^verbatim>\<open>val ? a : b\<close> and \<^verbatim>\<open>!val\<close>.\<close>

fun truthy :: "host \<Rightarrow> jsval \<Rightarrow> bool" where
  "truthy H Undefined = False"
| "truthy H Null = False"
| "truthy H (Bool b) = b"
| "truthy H (Num n) = (n \<noteq> 0)"
| "truthy H (Str s) = (s \<noteq> [])"
| "truthy H (Arr xs) = True"
| "truthy H (Obj kvs) = True"
| "truthy H (Host x) = hostTruthy H x"

text \<open>\<^verbatim>\<open>Array.isArray(arr)\<close>, with the elements \<^verbatim>\<open>arr.map\<close> goes through.\<close>

fun elementsOf :: "host \<Rightarrow> jsval \<Rightarrow> jsval list option" where
  "elementsOf H (Arr xs) = Some xs"
| "elementsOf H (Host x) = map_option (map ofAtom) (hostElements H x)"
| "elementsOf H v = None"

definition isArray :: "host \<Rightarrow> jsval \<Rightarrow> bool" where
  "isArray H v = (elementsOf H v \<noteq> None)"

subsection \<open>Decimal numerals\<close>

definition digitChar :: "nat \<Rightarrow> char" where
  "digitChar d = char_of (48 + d)"

function showNat :: "nat \<Rightarrow> string" where
  "showNat n = (if n < 10 then [digitChar n] else showNat (n div 10) @ [digitChar (n mod 10)])"
  by pat_completeness auto
termination
  by (relation "measure id") auto

definition showInt :: "int \<Rightarrow> string" where
  "showInt i = (if i < 0 then CHR ''-'' # showNat (nat (- i)) else showNat (nat i))"

text \<open>
  A property key that is an array index: the canonical decimal numeral of a natural
  number (\<^verbatim>\<open>"0"\<close>, \<^verbatim>\<open>"17"\<close>, but not \<^verbatim>\<open>"017"\<close>).
\<close>

definition isDigit :: "char \<Rightarrow> bool" where
  "isDigit c = (let n = (of_char c :: nat) in 48 \<le> n \<and> n \<le> 57)"

definition digitsValue :: "string \<Rightarrow> nat" where
  "digitsValue s = foldl (\<lambda>acc c. 10 * acc + (of_char c - 48)) 0 s"

definition parseIndex :: "string \<Rightarrow> nat option" where
  "parseIndex key =
     (if key \<noteq> [] \<and> list_all isDigit key \<and> (length key = 1 \<or> hd key \<noteq> CHR ''0'')
      then Some (digitsValue key) else None)"

subsection \<open>String(val)\<close>

text \<open>\<^verbatim>\<open>parts.join(sep)\<close>, where the conversion of a part may throw: the first exception
  from the left ends it.\<close>

fun joinWith :: "string \<Rightarrow> (error + string) list \<Rightarrow> error + string" where
  "joinWith sep [] = Inr []"
| "joinWith sep [p] = p"
| "joinWith sep (p # q # ps) =
     (case p of
        Inl e \<Rightarrow> Inl e
      | Inr s \<Rightarrow> (case joinWith sep (q # ps) of Inl e \<Rightarrow> Inl e | Inr r \<Rightarrow> Inr (s @ sep @ r)))"

text \<open>
  \<^verbatim>\<open>String(val)\<close>. An array is joined with commas, \<^verbatim>\<open>undefined\<close> and \<^verbatim>\<open>null\<close> elements
  giving nothing. A mapping is converted by the \<^verbatim>\<open>toString\<close> and \<^verbatim>\<open>valueOf\<close> it has or
  inherits, a number and a value of the host as the host prints them.
\<close>

fun toStr :: "host \<Rightarrow> jsval \<Rightarrow> error + string" where
  "toStr H Undefined = Inr ''undefined''"
| "toStr H Null = Inr ''null''"
| "toStr H (Bool b) = Inr (if b then ''true'' else ''false'')"
| "toStr H (Num n) = Inr (numberToString H n)"
| "toStr H (Str s) = Inr s"
| "toStr H (Arr xs) =
     joinWith '','' (map (\<lambda>x. if x = Undefined \<or> x = Null then Inr [] else toStr H x) xs)"
| "toStr H (Obj kvs) = objectToString H kvs"
| "toStr H (Host x) = hostToString H x"

subsection \<open>Path resolution\<close>

text \<open>The read through the prototype chain, for a key that is no own property.\<close>

definition viaChain :: "host \<Rightarrow> receiver \<Rightarrow> string \<Rightarrow> error + jsval" where
  "viaChain H c key =
     (case inherited H c key of
        None \<Rightarrow> Inr Undefined
      | Some (Inl e) \<Rightarrow> Inl e
      | Some (Inr a) \<Rightarrow> Inr (ofAtom a))"

text \<open>\<^verbatim>\<open>acc[key]\<close>: throws on \<^verbatim>\<open>undefined\<close> and \<^verbatim>\<open>null\<close>; own properties first, then the
  chain.\<close>

fun getProp :: "host \<Rightarrow> jsval \<Rightarrow> string \<Rightarrow> error + jsval" where
  "getProp H Undefined key = Inl TypeError"
| "getProp H Null key = Inl TypeError"
| "getProp H (Bool b) key = viaChain H OfBoolean key"
| "getProp H (Num n) key = viaChain H OfNumber key"
| "getProp H (Str s) key =
     (if key = ''length'' then Inr (Num (int (length s)))
      else case parseIndex key of
             Some i \<Rightarrow> if i < length s then Inr (Str [s ! i]) else viaChain H OfString key
           | None \<Rightarrow> viaChain H OfString key)"
| "getProp H (Arr xs) key =
     (if key = ''length'' then Inr (Num (int (length xs)))
      else case parseIndex key of
             Some i \<Rightarrow> if i < length xs then Inr (xs ! i) else viaChain H OfArray key
           | None \<Rightarrow> viaChain H OfArray key)"
| "getProp H (Obj kvs) key =
     (case map_of kvs key of Some v \<Rightarrow> Inr v | None \<Rightarrow> viaChain H OfObject key)"
| "getProp H (Host x) key = viaChain H (OfHost x) key"

text \<open>\<^verbatim>\<open>dotPath.split('.')\<close>: never empty; an empty path gives one empty segment.\<close>

fun splitDot :: "string \<Rightarrow> string list" where
  "splitDot [] = [[]]"
| "splitDot (c # cs) =
     (if c = CHR ''.'' then [] # splitDot cs
      else (case splitDot cs of seg # segs \<Rightarrow> (c # seg) # segs | [] \<Rightarrow> [[c]]))"

text \<open>The callback of the \<^verbatim>\<open>reduce\<close> in \<^verbatim>\<open>resolvePath\<close>.\<close>

definition resolveStep :: "host \<Rightarrow> jsval \<Rightarrow> string \<Rightarrow> error + jsval" where
  "resolveStep H acc key =
     (if acc = Undefined \<or> acc = Null then Inr (Str []) else getProp H acc key)"

text \<open>\<^verbatim>\<open>reduce\<close> with a callback that may throw: the first exception ends it.\<close>

fun reduce :: "('a \<Rightarrow> 'b \<Rightarrow> error + 'a) \<Rightarrow> 'a \<Rightarrow> 'b list \<Rightarrow> error + 'a" where
  "reduce f acc [] = Inr acc"
| "reduce f acc (k # ks) = (case f acc k of Inl e \<Rightarrow> Inl e | Inr acc' \<Rightarrow> reduce f acc' ks)"

definition resolvePath :: "host \<Rightarrow> jsval \<Rightarrow> string \<Rightarrow> error + jsval" where
  "resolvePath H ob dotPath = reduce (resolveStep H) ob (splitDot dotPath)"

subsection \<open>Character classes and string primitives\<close>

text \<open>\<^verbatim>\<open>\w\<close>: letters, digits and the underscore.\<close>

definition isWord :: "char \<Rightarrow> bool" where
  "isWord c =
     (let n = (of_char c :: nat)
      in (48 \<le> n \<and> n \<le> 57) \<or> (65 \<le> n \<and> n \<le> 90) \<or> n = 95 \<or> (97 \<le> n \<and> n \<le> 122))"

text \<open>\<^verbatim>\<open>\s\<close>: tab, line feed, vertical tab, form feed, carriage return, space, no-break space.\<close>

definition isSpace :: "char \<Rightarrow> bool" where
  "isSpace c =
     (let n = (of_char c :: nat) in (9 \<le> n \<and> n \<le> 13) \<or> n = 32 \<or> n = 160)"

text \<open>\<^verbatim>\<open>[\w.]\<close>, the class of the block tags' paths.\<close>

definition isPathChar :: "char \<Rightarrow> bool" where
  "isPathChar c = (isWord c \<or> c = CHR ''.'')"

text \<open>\<^verbatim>\<open>[\w.@]\<close>, the class of the variable tag's path.\<close>

definition isVarChar :: "char \<Rightarrow> bool" where
  "isVarChar c = (isWord c \<or> c = CHR ''.'' \<or> c = CHR ''@'')"

text \<open>\<^verbatim>\<open>s.startsWith(p)\<close>\<close>

fun startsWith :: "string \<Rightarrow> string \<Rightarrow> bool" where
  "startsWith s [] = True"
| "startsWith [] (p # ps) = False"
| "startsWith (c # cs) (p # ps) = (c = p \<and> startsWith cs ps)"

text \<open>\<^verbatim>\<open>s.indexOf(p)\<close>, with \<open>None\<close> for -1.\<close>

fun indexOfFrom :: "string \<Rightarrow> string \<Rightarrow> nat \<Rightarrow> nat option" where
  "indexOfFrom [] p i = (if p = [] then Some i else None)"
| "indexOfFrom (c # cs) p i = (if startsWith (c # cs) p then Some i else indexOfFrom cs p (Suc i))"

definition indexOf :: "string \<Rightarrow> string \<Rightarrow> nat option" where
  "indexOf s p = indexOfFrom s p 0"

text \<open>
  \<^verbatim>\<open>s.match(re)\<close> for a pattern without \<^verbatim>\<open>^\<close>: the leftmost position where the pattern
  matches, with the length of the match there. The first argument is the pattern
  anchored at the start of its input.
\<close>

fun searchFrom :: "(string \<Rightarrow> nat option) \<Rightarrow> string \<Rightarrow> nat \<Rightarrow> (nat \<times> nat) option" where
  "searchFrom m [] i = (case m [] of Some l \<Rightarrow> Some (i, l) | None \<Rightarrow> None)"
| "searchFrom m (c # cs) i =
     (case m (c # cs) of Some l \<Rightarrow> Some (i, l) | None \<Rightarrow> searchFrom m cs (Suc i))"

definition search :: "(string \<Rightarrow> nat option) \<Rightarrow> string \<Rightarrow> (nat \<times> nat) option" where
  "search m s = searchFrom m s 0"

subsection \<open>The block scanner\<close>

text \<open>The tags \<^verbatim>\<open>findBlockEnd\<close> is called with.\<close>

datatype kind = Each | If | Unless

fun kindName :: "kind \<Rightarrow> string" where
  "kindName Each = ''each''"
| "kindName If = ''if''"
| "kindName Unless = ''unless''"

text \<open>The alternation \<^verbatim>\<open>(tag|if|each|unless)\<close>, in the order the pattern tries it.\<close>

definition alternatives :: "kind \<Rightarrow> string list" where
  "alternatives tag = [kindName tag, ''if'', ''each'', ''unless'']"

text \<open>
  \<^verbatim>\<open>openPattern\<close> at the start of \<open>s\<close>: \<^verbatim>\<open>{{#\<close>, one of the alternatives, one character of
  \<^verbatim>\<open>\s\<close>. The result is the length of the match.
\<close>

definition matchOpenAt :: "kind \<Rightarrow> string \<Rightarrow> nat option" where
  "matchOpenAt tag s =
     (case find (\<lambda>a. startsWith s (''{{#'' @ a) \<and>
                     (case drop (3 + length a) s of [] \<Rightarrow> False | c # cs \<Rightarrow> isSpace c))
                (alternatives tag) of
        Some a \<Rightarrow> Some (3 + length a + 1)
      | None \<Rightarrow> None)"

text \<open>\<^verbatim>\<open>closePattern\<close> at the start of \<open>s\<close>: \<^verbatim>\<open>{{/\<close>, one of the alternatives, \<^verbatim>\<open>}}\<close>.\<close>

definition matchCloseAt :: "kind \<Rightarrow> string \<Rightarrow> nat option" where
  "matchCloseAt tag s =
     (case find (\<lambda>a. startsWith s (''{{/'' @ a @ ''}}'')) (alternatives tag) of
        Some a \<Rightarrow> Some (3 + length a + 2)
      | None \<Rightarrow> None)"

lemma searchFrom_length:
  "searchFrom m s i = Some (j, l) \<Longrightarrow> \<exists>t. m t = Some l"
  by (induction s arbitrary: i) (auto split: option.splits)

lemma matchOpenAt_length: "matchOpenAt tag s = Some l \<Longrightarrow> 0 < l"
  by (auto simp: matchOpenAt_def split: if_splits option.splits)

lemma matchCloseAt_length: "matchCloseAt tag s = Some l \<Longrightarrow> 0 < l"
  by (auto simp: matchCloseAt_def split: if_splits option.splits)

lemma search_open_length: "search (matchOpenAt tag) s = Some (j, l) \<Longrightarrow> 0 < l"
  unfolding search_def using searchFrom_length matchOpenAt_length by blast

lemma search_close_length: "search (matchCloseAt tag) s = Some (j, l) \<Longrightarrow> 0 < l"
  unfolding search_def using searchFrom_length matchCloseAt_length by blast

text \<open>
  The \<^verbatim>\<open>while\<close> loop of \<^verbatim>\<open>findBlockEnd\<close>, on its two variables \<open>depth\<close> and \<open>pos\<close>.
  \<open>openFirst\<close> is the test \<^verbatim>\<open>openIdx < closeIdx\<close>, where a missing open match is
  \<^verbatim>\<open>Infinity\<close>.
\<close>

definition openFirst :: "(nat \<times> nat) option \<Rightarrow> nat \<Rightarrow> (nat \<times> nat) option" where
  "openFirst openMatch closeIdx =
     (case openMatch of
        Some (openIdx, openLen) \<Rightarrow> if openIdx < closeIdx then Some (openIdx, openLen) else None
      | None \<Rightarrow> None)"

lemma openFirst_length:
  "openFirst (search (matchOpenAt tag) s) c = Some (j, l) \<Longrightarrow> 0 < l"
  by (auto simp: openFirst_def split: option.splits if_splits dest: search_open_length)

function findBlockEnd_loop :: "kind \<Rightarrow> string \<Rightarrow> nat \<Rightarrow> nat \<Rightarrow> string \<times> string" where
  "findBlockEnd_loop tag content depth pos =
     (if 0 < depth \<and> pos < length content then
        (case search (matchCloseAt tag) (drop pos content) of
           None \<Rightarrow> (content, [])
         | Some (closeIdx, closeLen) \<Rightarrow>
             (case openFirst (search (matchOpenAt tag) (drop pos content)) closeIdx of
                Some (openIdx, openLen) \<Rightarrow>
                  findBlockEnd_loop tag content (depth + 1) (pos + openIdx + openLen)
              | None \<Rightarrow>
                  if depth - 1 = 0
                  then (take (pos + closeIdx) content, drop (pos + closeIdx + closeLen) content)
                  else findBlockEnd_loop tag content (depth - 1) (pos + closeIdx + closeLen)))
      else (content, []))"
  by pat_completeness auto
termination findBlockEnd_loop
  by (relation "measure (\<lambda>(tag, content, depth, pos). length content - pos)")
     (auto dest!: openFirst_length search_close_length)

definition findBlockEnd :: "string \<Rightarrow> kind \<Rightarrow> string \<times> string" where
  "findBlockEnd content tag = findBlockEnd_loop tag content 1 0"

subsection \<open>The tag patterns of the renderer\<close>

text \<open>
  Each pattern is anchored with \<^verbatim>\<open>^\<close>. Its repetitions are greedy, and the class of
  each repetition is disjoint from whatever may follow it, so the longest run is the
  only one that can lead to a match: \<open>takeWhile\<close> is the repetition.
\<close>

text \<open>
  \<^verbatim>\<open>/^\{\{>\s*(\w+)\s*\}\}/\<close>: the captured name and the length of the match.
\<close>

definition matchPartial :: "string \<Rightarrow> (string \<times> nat) option" where
  "matchPartial s =
     (if startsWith s ''{{>'' then
        (let s1 = dropWhile isSpace (drop 3 s);
             name = takeWhile isWord s1;
             s2 = dropWhile isSpace (drop (length name) s1)
         in if name \<noteq> [] \<and> startsWith s2 ''}}''
            then Some (name, length s - length s2 + 2) else None)
      else None)"

text \<open>
  \<^verbatim>\<open>/^\{\{#each\s+([\w.]+)\}\}/\<close>, and the same pattern for \<^verbatim>\<open>if\<close> and \<^verbatim>\<open>unless\<close>: the
  captured path and the length of the match.
\<close>

definition matchBlock :: "kind \<Rightarrow> string \<Rightarrow> (string \<times> nat) option" where
  "matchBlock k s =
     (if startsWith s (''{{#'' @ kindName k) then
        (let s0 = drop (3 + length (kindName k)) s;
             ws = takeWhile isSpace s0;
             s1 = drop (length ws) s0;
             path = takeWhile isPathChar s1;
             s2 = drop (length path) s1
         in if ws \<noteq> [] \<and> path \<noteq> [] \<and> startsWith s2 ''}}''
            then Some (path, 3 + length (kindName k) + length ws + length path + 2) else None)
      else None)"

text \<open>\<^verbatim>\<open>/^\{\{([\w.@]+)\}\}/\<close>\<close>

definition matchVar :: "string \<Rightarrow> (string \<times> nat) option" where
  "matchVar s =
     (if startsWith s ''{{'' then
        (let path = takeWhile isVarChar (drop 2 s);
             s2 = drop (2 + length path) s
         in if path \<noteq> [] \<and> startsWith s2 ''}}''
            then Some (path, 2 + length path + 2) else None)
      else None)"

text \<open>\<^verbatim>\<open>/^\{\{\/(if|each|unless)\}\}/\<close>, the closing tag in the search for \<^verbatim>\<open>{{else}}\<close>.\<close>

definition matchClosing :: "string \<Rightarrow> bool" where
  "matchClosing s =
     (startsWith s ''{{/if}}'' \<or> startsWith s ''{{/each}}'' \<or> startsWith s ''{{/unless}}'')"

subsection \<open>The split of an if block at its else marker\<close>

text \<open>
  The \<^verbatim>\<open>for\<close> loop over \<open>i\<close>: the first argument is \<^verbatim>\<open>body.slice(i)\<close>. The result is
  the index at which the loop breaks, if it does. The counter is an integer: nothing
  in the loop keeps it from going below zero.
\<close>

fun elseLoop :: "string \<Rightarrow> int \<Rightarrow> nat \<Rightarrow> nat option" where
  "elseLoop [] depth i = None"
| "elseLoop (c # cs) depth i =
     (let d1 = (if startsWith (c # cs) ''{{#'' then depth + 1 else depth);
          d2 = (if matchClosing (c # cs) then d1 - 1 else d1)
      in if d2 = 0 \<and> startsWith (c # cs) ''{{else}}'' then Some i
         else elseLoop cs d2 (Suc i))"

text \<open>\<open>(ifBody, elseBody)\<close> as they stand after the loop.\<close>

definition splitElse :: "string \<Rightarrow> string \<times> string" where
  "splitElse body =
     (case elseLoop body 0 0 of
        None \<Rightarrow> (body, [])
      | Some i \<Rightarrow> (take i body, drop (i + length ''{{else}}'') body))"

subsection \<open>The renderer\<close>

text \<open>
  The context of one iteration of an each block: the spread of the enclosing context,
  then the four reserved names. \<open>AList.update\<close> keeps the place of a key that is
  there and appends a new one, as the object literal does.
\<close>

definition itemContext :: "obj \<Rightarrow> jsval list \<Rightarrow> jsval \<Rightarrow> nat \<Rightarrow> obj" where
  "itemContext ctx arr item index =
     AList.update ''@last'' (Bool (int index = int (length arr) - 1))
       (AList.update ''@first'' (Bool (index = 0))
         (AList.update ''@index'' (Num (int index))
           (AList.update ''this'' item ctx)))"

text \<open>
  What a call of \<^verbatim>\<open>render\<close> gives: \<open>None\<close> when the fuel runs out (the call stack of a
  partial that includes itself), \<open>Some (Inl e)\<close> for an exception, and
  \<open>Some (Inr (output, log))\<close> for the returned string with the lines written by
  \<^verbatim>\<open>console.warn\<close> on the way.
\<close>

type_synonym rendered = "string \<times> string list"
type_synonym outcome = "(error + rendered) option"

definition emitText :: "string \<Rightarrow> outcome" where
  "emitText s = Some (Inr (s, []))"

definition warnMissing :: "string \<Rightarrow> outcome" where
  "warnMissing name =
     Some (Inr ([], [''Warning: Partial '' @ [CHR 0x22] @ name @ [CHR 0x22] @ '' not found'']))"

text \<open>\<^verbatim>\<open>output += a\<close> followed by the rest of the loop, \<open>b\<close>.\<close>

definition andThen :: "outcome \<Rightarrow> outcome \<Rightarrow> outcome" where
  "andThen a b =
     (case a of
        None \<Rightarrow> None
      | Some (Inl e) \<Rightarrow> Some (Inl e)
      | Some (Inr (o1, w1)) \<Rightarrow>
          (case b of
             None \<Rightarrow> None
           | Some (Inl e) \<Rightarrow> Some (Inl e)
           | Some (Inr (o2, w2)) \<Rightarrow> Some (Inr (o1 @ o2, w1 @ w2))))"

text \<open>\<^verbatim>\<open>parts.join('')\<close> of the iterations of an each block, in their order.\<close>

definition joinAll :: "outcome list \<Rightarrow> outcome" where
  "joinAll parts = foldr andThen parts (emitText [])"

text \<open>The returned string alone, without the log.\<close>

definition outputOf :: "outcome \<Rightarrow> (error + string) option" where
  "outputOf r = map_option (map_sum id fst) r"

text \<open>
  \<^verbatim>\<open>partials[name]\<close>: the text of the registry's own entry, or what the prototype of the
  registry object has under that name.
\<close>

definition lookupPartial :: "host \<Rightarrow> (string \<rightharpoonup> string) \<Rightarrow> string \<Rightarrow> error + jsval" where
  "lookupPartial H partials name =
     (case partials name of
        Some text \<Rightarrow> Inr (Str text)
      | None \<Rightarrow> viaChain H OfObject name)"

text \<open>\<^verbatim>\<open>output += String(val)\<close>\<close>

definition emitString :: "host \<Rightarrow> jsval \<Rightarrow> outcome" where
  "emitString H val = (case toStr H val of Inl e \<Rightarrow> Some (Inl e) | Inr s \<Rightarrow> emitText s)"

text \<open>
  \<^verbatim>\<open>render(template, context, partials)\<close>. One unit of fuel pays for one pass of the
  \<^verbatim>\<open>while\<close> loop; the rest of the loop and the calls on a partial or a block body run on
  what is left.
\<close>

primrec render :: "host \<Rightarrow> nat \<Rightarrow> string \<Rightarrow> obj \<Rightarrow> (string \<rightharpoonup> string) \<Rightarrow> outcome" where
  "render H 0 template ctx partials = None"
| "render H (Suc n) template ctx partials =
     (if template = [] then emitText []
      else case indexOf template ''{{'' of
        None \<Rightarrow> emitText template
      | Some tagIdx \<Rightarrow>
          andThen (emitText (take tagIdx template))
           (let remaining = drop tagIdx template in
            case matchPartial remaining of
              Some (name, len) \<Rightarrow>
                (case lookupPartial H partials name of
                   Inl e \<Rightarrow> Some (Inl e)
                 | Inr partial \<Rightarrow>
                     andThen
                       (if \<not> truthy H partial then warnMissing name
                        else case partial of
                               Str text \<Rightarrow> render H n text ctx partials
                             | _ \<Rightarrow> (case nonStringTemplate H partial of
                                       Inl e \<Rightarrow> Some (Inl e)
                                     | Inr out \<Rightarrow> emitText out))
                       (render H n (drop len remaining) ctx partials))
            | None \<Rightarrow>
            (case matchBlock Each remaining of
              Some (path, len) \<Rightarrow>
                (case findBlockEnd (drop len remaining) Each of (body, rest) \<Rightarrow>
                 (case resolvePath H (Obj ctx) path of
                    Inl e \<Rightarrow> Some (Inl e)
                  | Inr arr \<Rightarrow>
                      andThen
                        (case elementsOf H arr of
                           Some items \<Rightarrow>
                             joinAll (map (\<lambda>(item, index).
                                        render H n body (itemContext ctx items item index) partials)
                                      (zip items [0..<length items]))
                         | None \<Rightarrow> emitText [])
                        (render H n rest ctx partials)))
            | None \<Rightarrow>
            (case matchBlock If remaining of
              Some (path, len) \<Rightarrow>
                (case findBlockEnd (drop len remaining) If of (body, rest) \<Rightarrow>
                 (case resolvePath H (Obj ctx) path of
                    Inl e \<Rightarrow> Some (Inl e)
                  | Inr val \<Rightarrow>
                      (case splitElse body of (ifBody, elseBody) \<Rightarrow>
                        andThen
                          (render H n (if truthy H val then ifBody else elseBody) ctx partials)
                          (render H n rest ctx partials))))
            | None \<Rightarrow>
            (case matchBlock Unless remaining of
              Some (path, len) \<Rightarrow>
                (case findBlockEnd (drop len remaining) Unless of (body, rest) \<Rightarrow>
                 (case resolvePath H (Obj ctx) path of
                    Inl e \<Rightarrow> Some (Inl e)
                  | Inr val \<Rightarrow>
                      andThen
                        (if \<not> truthy H val then render H n body ctx partials else emitText [])
                        (render H n rest ctx partials)))
            | None \<Rightarrow>
            (case matchVar remaining of
              Some (path, len) \<Rightarrow>
                (case resolvePath H (Obj ctx) path of
                   Inl e \<Rightarrow> Some (Inl e)
                 | Inr val \<Rightarrow>
                     andThen
                       (if val \<noteq> Undefined \<and> val \<noteq> Null then emitString H val
                        else emitText [])
                       (render H n (drop len remaining) ctx partials))
            | None \<Rightarrow>
                andThen (emitText ''{{'') (render H n (drop 2 remaining) ctx partials)))))))"

subsection \<open>A fragment of the host\<close>

text \<open>
  The members of ECMAScript's built-in objects that the examples below read: every
  object inherits \<^verbatim>\<open>constructor\<close> (the function \<^verbatim>\<open>Object\<close>, of length 1) and
  \<^verbatim>\<open>toString\<close> (a function of length 0) from \<^verbatim>\<open>Object.prototype\<close>; every number inherits
  \<^verbatim>\<open>constructor\<close> (the function \<^verbatim>\<open>Number\<close>) from \<^verbatim>\<open>Number.prototype\<close>; \<^verbatim>\<open>Number.NaN\<close> is
  \<^verbatim>\<open>NaN\<close>, which is falsy; a function has its \<^verbatim>\<open>name\<close> and its \<^verbatim>\<open>length\<close>, and reading
  \<^verbatim>\<open>caller\<close> or \<^verbatim>\<open>arguments\<close> of a built-in function throws a \<^verbatim>\<open>TypeError\<close>. A function
  has no \<^verbatim>\<open>indexOf\<close>, so \<^verbatim>\<open>render\<close> on a function throws when the function's length is
  positive and returns the empty string when it is zero. An integer below 1e21 is
  printed in decimal. A mapping of \<^verbatim>\<open>JSON.parse\<close> without an own \<^verbatim>\<open>toString\<close> is printed
  by the inherited one as \<^verbatim>\<open>[object Object]\<close>; an own \<^verbatim>\<open>toString\<close> is data and cannot be
  called, no \<^verbatim>\<open>valueOf\<close> gives a primitive in its place, and the conversion throws.
  The fragment knows no other value and no other member of the host (it takes them as
  absent), and the examples read none.
\<close>

definition stdFunctions :: "(string \<times> string \<times> nat) list" where
  "stdFunctions =
     [(''Object'', ''Object'', 1), (''Number'', ''Number'', 1),
      (''Object.prototype.toString'', ''toString'', 0)]"

definition stdInherited :: "receiver \<Rightarrow> string \<Rightarrow> (error + atom) option" where
  "stdInherited c key =
     (case c of
        OfObject \<Rightarrow>
          (if key = ''constructor'' then Some (Inr (AHost ''Object''))
           else if key = ''toString'' then Some (Inr (AHost ''Object.prototype.toString''))
           else None)
      | OfNumber \<Rightarrow>
          (if key = ''constructor'' then Some (Inr (AHost ''Number'')) else None)
      | OfHost x \<Rightarrow>
          (case map_of stdFunctions x of
             Some (name, arity) \<Rightarrow>
               (if key = ''caller'' \<or> key = ''arguments'' then Some (Inl TypeError)
                else if key = ''name'' then Some (Inr (AStr name))
                else if key = ''length'' then Some (Inr (ANum (int arity)))
                else if x = ''Number'' \<and> key = ''NaN'' then Some (Inr (AHost ''NaN''))
                else None)
           | None \<Rightarrow> None)
      | _ \<Rightarrow> None)"

definition stdHostToString :: "string \<Rightarrow> error + string" where
  "stdHostToString x =
     (case map_of stdFunctions x of
        Some (name, arity) \<Rightarrow> Inr (''function '' @ name @ ''() { [native code] }'')
      | None \<Rightarrow> Inr x)"

definition stdObjectToString :: "obj \<Rightarrow> error + string" where
  "stdObjectToString kvs =
     (if map_of kvs ''toString'' = None then Inr ''[object Object]'' else Inl TypeError)"

definition stdNonStringTemplate :: "jsval \<Rightarrow> error + string" where
  "stdNonStringTemplate v =
     (case v of
        Host x \<Rightarrow>
          (case map_of stdFunctions x of
             Some (name, arity) \<Rightarrow> if 0 < arity then Inl TypeError else Inr []
           | None \<Rightarrow> Inr [])
      | _ \<Rightarrow> Inr [])"

definition stdHost :: host where
  "stdHost =
     \<lparr> inherited = stdInherited,
       hostTruthy = (\<lambda>x. x \<noteq> ''NaN''),
       hostElements = (\<lambda>x. None),
       hostToString = stdHostToString,
       numberToString = showInt,
       objectToString = stdObjectToString,
       nonStringTemplate = stdNonStringTemplate \<rparr>"

section \<open>The renderer on a store\<close>

text \<open>
  In the program a context, a registry and every sequence and mapping inside them is an
  object that a call receives by reference and could write to. This section embeds
  \<^verbatim>\<open>render\<close> a second time, on a store of objects, so that what a call does to the
  objects it was given is a statement about its result and not a feature of the
  notation.
\<close>

subsection \<open>Stored values\<close>

text \<open>A value as a variable holds it: a primitive, a value of the host, or the address
  of a sequence or a mapping.\<close>

datatype hval =
    HUndefined
  | HNull
  | HBool bool
  | HNum int
  | HStr string
  | HRef nat
  | HHost string

datatype cell = CArr "hval list" | CObj "(string \<times> hval) list"

text \<open>
  The store holds its objects newest first; the address of an object is the number of
  objects that were there before it. Creating an object puts it in front.
\<close>

type_synonym store = "cell list"

fun cellAt :: "store \<Rightarrow> nat \<Rightarrow> cell option" where
  "cellAt [] a = None"
| "cellAt (c # older) a = (if a = length older then Some c else cellAt older a)"

definition alloc :: "cell \<Rightarrow> store \<Rightarrow> hval \<times> store" where
  "alloc c h = (HRef (length h), c # h)"

fun hvalOfAtom :: "atom \<Rightarrow> hval" where
  "hvalOfAtom AUndefined = HUndefined"
| "hvalOfAtom ANull = HNull"
| "hvalOfAtom (ABool b) = HBool b"
| "hvalOfAtom (ANum n) = HNum n"
| "hvalOfAtom (AStr s) = HStr s"
| "hvalOfAtom (AHost x) = HHost x"

text \<open>
  The value an address stands for, read off the store. An object holds addresses of
  objects older than itself, as the objects of \<^verbatim>\<open>JSON.parse\<close> and of an object literal
  do; \<open>wfStore\<close> says so of a store.
\<close>

fun decode :: "store \<Rightarrow> hval \<Rightarrow> jsval" where
  "decode h HUndefined = Undefined"
| "decode h HNull = Null"
| "decode h (HBool b) = Bool b"
| "decode h (HNum n) = Num n"
| "decode h (HStr s) = Str s"
| "decode h (HHost x) = Host x"
| "decode [] (HRef a) = Undefined"
| "decode (c # older) (HRef a) =
     (if a = length older then
        (case c of
           CArr xs \<Rightarrow> Arr (map (decode older) xs)
         | CObj kvs \<Rightarrow> Obj (map (\<lambda>kv. (fst kv, decode older (snd kv))) kvs))
      else decode older (HRef a))"

fun validVal :: "nat \<Rightarrow> hval \<Rightarrow> bool" where
  "validVal n (HRef a) = (a < n)"
| "validVal n v = True"

fun cellVals :: "cell \<Rightarrow> hval list" where
  "cellVals (CArr xs) = xs"
| "cellVals (CObj kvs) = map snd kvs"

fun wfStore :: "store \<Rightarrow> bool" where
  "wfStore [] = True"
| "wfStore (c # older) = (list_all (validVal (length older)) (cellVals c) \<and> wfStore older)"

subsection \<open>Reads\<close>

fun truthyS :: "host \<Rightarrow> hval \<Rightarrow> bool" where
  "truthyS H HUndefined = False"
| "truthyS H HNull = False"
| "truthyS H (HBool b) = b"
| "truthyS H (HNum n) = (n \<noteq> 0)"
| "truthyS H (HStr s) = (s \<noteq> [])"
| "truthyS H (HRef a) = True"
| "truthyS H (HHost x) = hostTruthy H x"

fun elementsOfS :: "host \<Rightarrow> store \<Rightarrow> hval \<Rightarrow> hval list option" where
  "elementsOfS H h (HRef a) = (case cellAt h a of Some (CArr xs) \<Rightarrow> Some xs | _ \<Rightarrow> None)"
| "elementsOfS H h (HHost x) = map_option (map hvalOfAtom) (hostElements H x)"
| "elementsOfS H h v = None"

definition viaChainS :: "host \<Rightarrow> receiver \<Rightarrow> string \<Rightarrow> error + hval" where
  "viaChainS H c key =
     (case inherited H c key of
        None \<Rightarrow> Inr HUndefined
      | Some (Inl e) \<Rightarrow> Inl e
      | Some (Inr a) \<Rightarrow> Inr (hvalOfAtom a))"

text \<open>\<^verbatim>\<open>acc[key]\<close> on the store. An address without an object does not occur in a store
  that \<open>wfStore\<close> holds of.\<close>

fun getPropS :: "host \<Rightarrow> store \<Rightarrow> hval \<Rightarrow> string \<Rightarrow> error + hval" where
  "getPropS H h HUndefined key = Inl TypeError"
| "getPropS H h HNull key = Inl TypeError"
| "getPropS H h (HBool b) key = viaChainS H OfBoolean key"
| "getPropS H h (HNum n) key = viaChainS H OfNumber key"
| "getPropS H h (HStr s) key =
     (if key = ''length'' then Inr (HNum (int (length s)))
      else case parseIndex key of
             Some i \<Rightarrow> if i < length s then Inr (HStr [s ! i]) else viaChainS H OfString key
           | None \<Rightarrow> viaChainS H OfString key)"
| "getPropS H h (HRef a) key =
     (case cellAt h a of
        Some (CArr xs) \<Rightarrow>
          (if key = ''length'' then Inr (HNum (int (length xs)))
           else case parseIndex key of
                  Some i \<Rightarrow> if i < length xs then Inr (xs ! i) else viaChainS H OfArray key
                | None \<Rightarrow> viaChainS H OfArray key)
      | Some (CObj kvs) \<Rightarrow>
          (case map_of kvs key of Some v \<Rightarrow> Inr v | None \<Rightarrow> viaChainS H OfObject key)
      | None \<Rightarrow> Inl TypeError)"
| "getPropS H h (HHost x) key = viaChainS H (OfHost x) key"

definition resolveStepS :: "host \<Rightarrow> store \<Rightarrow> hval \<Rightarrow> string \<Rightarrow> error + hval" where
  "resolveStepS H h acc key =
     (if acc = HUndefined \<or> acc = HNull then Inr (HStr []) else getPropS H h acc key)"

definition resolvePathS :: "host \<Rightarrow> store \<Rightarrow> hval \<Rightarrow> string \<Rightarrow> error + hval" where
  "resolvePathS H h ob dotPath = reduce (resolveStepS H h) ob (splitDot dotPath)"

text \<open>\<^verbatim>\<open>String(val)\<close> is the host's conversion: it reads the value the argument stands
  for.\<close>

definition toStrS :: "host \<Rightarrow> store \<Rightarrow> hval \<Rightarrow> error + string" where
  "toStrS H h v = toStr H (decode h v)"

subsection \<open>The renderer\<close>

text \<open>A step of the renderer takes the store and gives what it produced with the store
  it leaves.\<close>

type_synonym step = "store \<Rightarrow> outcome \<times> store"

definition give :: "outcome \<Rightarrow> step" where
  "give r h = (r, h)"

text \<open>\<^verbatim>\<open>output += a\<close> followed by the rest of the loop \<open>b\<close>, which runs in the store \<open>a\<close>
  left, and does not run when \<open>a\<close> threw or ran out of fuel.\<close>

definition seqS :: "step \<Rightarrow> step \<Rightarrow> step" where
  "seqS a b h =
     (case a h of
        (Some (Inr r1), h1) \<Rightarrow> (case b h1 of (r2, h2) \<Rightarrow> (andThen (Some (Inr r1)) r2, h2))
      | (r1, h1) \<Rightarrow> (r1, h1))"

text \<open>\<^verbatim>\<open>arr.map(f).join('')\<close>: the callback runs on the elements in their order.\<close>

fun forEachS :: "('a \<Rightarrow> step) \<Rightarrow> 'a list \<Rightarrow> step" where
  "forEachS f [] h = (emitText [], h)"
| "forEachS f (x # xs) h = seqS (f x) (forEachS f xs) h"

text \<open>The own properties the spread \<^verbatim>\<open>...context\<close> copies.\<close>

definition ownProps :: "store \<Rightarrow> hval \<Rightarrow> (string \<times> hval) list" where
  "ownProps h v =
     (case v of
        HRef a \<Rightarrow>
          (case cellAt h a of
             Some (CObj kvs) \<Rightarrow> kvs
           | Some (CArr xs) \<Rightarrow> zip (map showNat [0..<length xs]) xs
           | None \<Rightarrow> [])
      | HStr s \<Rightarrow> zip (map showNat [0..<length s]) (map (\<lambda>c. HStr [c]) s)
      | _ \<Rightarrow> [])"

text \<open>The object literal of an each block: a new object in the store.\<close>

definition itemContextS :: "(string \<times> hval) list \<Rightarrow> hval list \<Rightarrow> hval \<Rightarrow> nat \<Rightarrow> cell" where
  "itemContextS props arr item index =
     CObj (AList.update ''@last'' (HBool (int index = int (length arr) - 1))
            (AList.update ''@first'' (HBool (index = 0))
              (AList.update ''@index'' (HNum (int index))
                (AList.update ''this'' item props))))"

definition emitStringS :: "host \<Rightarrow> store \<Rightarrow> hval \<Rightarrow> outcome" where
  "emitStringS H h val = (case toStrS H h val of Inl e \<Rightarrow> Some (Inl e) | Inr s \<Rightarrow> emitText s)"

primrec renderS :: "host \<Rightarrow> nat \<Rightarrow> string \<Rightarrow> hval \<Rightarrow> hval \<Rightarrow> step" where
  "renderS H 0 template ctx partials = give None"
| "renderS H (Suc n) template ctx partials =
     (if template = [] then give (emitText [])
      else case indexOf template ''{{'' of
        None \<Rightarrow> give (emitText template)
      | Some tagIdx \<Rightarrow>
          seqS (give (emitText (take tagIdx template)))
           (let remaining = drop tagIdx template in
            case matchPartial remaining of
              Some (name, len) \<Rightarrow>
                (\<lambda>h. case getPropS H h partials name of
                   Inl e \<Rightarrow> (Some (Inl e), h)
                 | Inr partial \<Rightarrow>
                     seqS
                       (if \<not> truthyS H partial then give (warnMissing name)
                        else case partial of
                               HStr text \<Rightarrow> renderS H n text ctx partials
                             | _ \<Rightarrow> (\<lambda>h. case nonStringTemplate H (decode h partial) of
                                       Inl e \<Rightarrow> (Some (Inl e), h)
                                     | Inr out \<Rightarrow> (emitText out, h)))
                       (renderS H n (drop len remaining) ctx partials) h)
            | None \<Rightarrow>
            (case matchBlock Each remaining of
              Some (path, len) \<Rightarrow>
                (case findBlockEnd (drop len remaining) Each of (body, rest) \<Rightarrow>
                 (\<lambda>h. case resolvePathS H h ctx path of
                    Inl e \<Rightarrow> (Some (Inl e), h)
                  | Inr arr \<Rightarrow>
                      seqS
                        (case elementsOfS H h arr of
                           Some items \<Rightarrow>
                             forEachS (\<lambda>(item, index) h.
                                 case alloc (itemContextS (ownProps h ctx) items item index) h of
                                   (itemCtx, h1) \<Rightarrow> renderS H n body itemCtx partials h1)
                               (zip items [0..<length items])
                         | None \<Rightarrow> give (emitText []))
                        (renderS H n rest ctx partials) h))
            | None \<Rightarrow>
            (case matchBlock If remaining of
              Some (path, len) \<Rightarrow>
                (case findBlockEnd (drop len remaining) If of (body, rest) \<Rightarrow>
                 (\<lambda>h. case resolvePathS H h ctx path of
                    Inl e \<Rightarrow> (Some (Inl e), h)
                  | Inr val \<Rightarrow>
                      (case splitElse body of (ifBody, elseBody) \<Rightarrow>
                        seqS
                          (renderS H n (if truthyS H val then ifBody else elseBody) ctx partials)
                          (renderS H n rest ctx partials) h)))
            | None \<Rightarrow>
            (case matchBlock Unless remaining of
              Some (path, len) \<Rightarrow>
                (case findBlockEnd (drop len remaining) Unless of (body, rest) \<Rightarrow>
                 (\<lambda>h. case resolvePathS H h ctx path of
                    Inl e \<Rightarrow> (Some (Inl e), h)
                  | Inr val \<Rightarrow>
                      seqS
                        (if \<not> truthyS H val then renderS H n body ctx partials
                         else give (emitText []))
                        (renderS H n rest ctx partials) h))
            | None \<Rightarrow>
            (case matchVar remaining of
              Some (path, len) \<Rightarrow>
                (\<lambda>h. case resolvePathS H h ctx path of
                   Inl e \<Rightarrow> (Some (Inl e), h)
                 | Inr val \<Rightarrow>
                     seqS
                       (if val \<noteq> HUndefined \<and> val \<noteq> HNull then give (emitStringS H h val)
                        else give (emitText []))
                       (renderS H n (drop len remaining) ctx partials) h)
            | None \<Rightarrow>
                seqS (give (emitText ''{{'')) (renderS H n (drop 2 remaining) ctx partials)))))))"

section \<open>Notions of the specification\<close>

subsection \<open>The depth counter of the scanner\<close>

text \<open>
  The scanner in the words of the specification: a counter that starts at the depth
  given, goes up at every opening tag of one of the three kinds, down at every closing
  tag of one of the three kinds, and stops at the closing tag that brings it to zero.
  As in \<^verbatim>\<open>openPattern\<close>, an opening tag is \<^verbatim>\<open>{{#\<close>, the name of a kind and one white space
  character; a closing tag is \<^verbatim>\<open>{{/\<close>, the name of a kind and \<^verbatim>\<open>}}\<close>.
\<close>

definition openingTagAt :: "string \<Rightarrow> bool" where
  "openingTagAt s =
     list_ex (\<lambda>k. startsWith s (''{{#'' @ kindName k) \<and>
                   (case drop (3 + length (kindName k)) s of [] \<Rightarrow> False | c # cs \<Rightarrow> isSpace c))
             [Each, If, Unless]"

definition closingTagAt :: "string \<Rightarrow> nat option" where
  "closingTagAt s =
     map_option (\<lambda>k. length (''{{/'' @ kindName k @ ''}}''))
       (find (\<lambda>k. startsWith s (''{{/'' @ kindName k @ ''}}'')) [Each, If, Unless])"

text \<open>
  \<open>scanDepth s depth i\<close>, for \<open>s\<close> the content from position \<open>i\<close> on: the position and
  the length of the closing tag at which the counter reaches zero, if there is one.
\<close>

fun scanDepth :: "string \<Rightarrow> nat \<Rightarrow> nat \<Rightarrow> (nat \<times> nat) option" where
  "scanDepth [] depth i = None"
| "scanDepth (c # cs) depth i =
     (if openingTagAt (c # cs) then scanDepth cs (depth + 1) (Suc i)
      else case closingTagAt (c # cs) of
             Some l \<Rightarrow> if depth = 1 then Some (i, l) else scanDepth cs (depth - 1) (Suc i)
           | None \<Rightarrow> scanDepth cs depth (Suc i))"

text \<open>Positions where the counter moves.\<close>

definition tokenAt :: "string \<Rightarrow> bool" where
  "tokenAt s = (openingTagAt s \<or> closingTagAt s \<noteq> None)"

subsection \<open>The else marker\<close>

text \<open>
  The search for the else marker in the words of the specification: the counter goes
  up at an opening tag of one of the three kinds and down at a closing tag of one of
  the three kinds, and the body is split at the first \<^verbatim>\<open>{{else}}\<close> met while the counter
  is zero.
\<close>

fun elseLoopSpec :: "string \<Rightarrow> int \<Rightarrow> nat \<Rightarrow> nat option" where
  "elseLoopSpec [] depth i = None"
| "elseLoopSpec (c # cs) depth i =
     (let d1 = (if openingTagAt (c # cs) then depth + 1 else depth);
          d2 = (if closingTagAt (c # cs) \<noteq> None then d1 - 1 else d1)
      in if d2 = 0 \<and> startsWith (c # cs) ''{{else}}'' then Some i
         else elseLoopSpec cs d2 (Suc i))"

definition splitElseSpec :: "string \<Rightarrow> string \<times> string" where
  "splitElseSpec body =
     (case elseLoopSpec body 0 0 of
        None \<Rightarrow> (body, [])
      | Some i \<Rightarrow> (take i body, drop (i + length ''{{else}}'') body))"

subsection \<open>Runs and their results\<close>

text \<open>
  \<open>below a b\<close>: the run \<open>a\<close> either ran out of fuel or ended as \<open>b\<close> did.
\<close>

definition below :: "outcome \<Rightarrow> outcome \<Rightarrow> bool" where
  "below a b = (a = None \<or> a = b)"

text \<open>
  A template has a partial tag when the partial pattern matches at one of its
  positions.
\<close>

definition hasPartialTag :: "string \<Rightarrow> bool" where
  "hasPartialTag t = list_ex (\<lambda>i. matchPartial (drop i t) \<noteq> None) [0..<length t]"

text \<open>The call came to an end: it returned a string or threw.\<close>

definition finishes :: "outcome \<Rightarrow> bool" where
  "finishes a = (a \<noteq> None)"

subsection \<open>What a call leaves of the store\<close>

text \<open>\<open>grown h h'\<close>: the store \<open>h'\<close> is the store \<open>h\<close> with new objects in front; every
  object of \<open>h\<close> is in \<open>h'\<close>, at its address and as it was.\<close>

definition grown :: "store \<Rightarrow> store \<Rightarrow> bool" where
  "grown h h' = (length h \<le> length h' \<and> drop (length h' - length h) h' = h)"

text \<open>The registry of partials as an object of the store: a mapping at the address
  \<open>ps\<close> whose entries are strings, the texts of the partial files.\<close>

fun isText :: "hval \<Rightarrow> bool" where
  "isText (HStr s) = True"
| "isText v = False"

definition registryAt :: "store \<Rightarrow> hval \<Rightarrow> (string \<times> hval) list option" where
  "registryAt h ps =
     (case ps of
        HRef p \<Rightarrow>
          (case cellAt h p of
             Some (CObj kvs) \<Rightarrow> if list_all isText (map snd kvs) then Some kvs else None
           | _ \<Rightarrow> None)
      | _ \<Rightarrow> None)"

text \<open>The registry as the renderer without a store takes it.\<close>

definition textsOf :: "(string \<times> hval) list \<Rightarrow> (string \<rightharpoonup> string)" where
  "textsOf kvs name = (case map_of kvs name of Some (HStr text) \<Rightarrow> Some text | _ \<Rightarrow> None)"

text \<open>The context of a call is a mapping of the store.\<close>

definition contextAt :: "store \<Rightarrow> hval \<Rightarrow> (string \<times> hval) list option" where
  "contextAt h ctx =
     (case ctx of
        HRef c \<Rightarrow> (case cellAt h c of Some (CObj kvs) \<Rightarrow> Some kvs | _ \<Rightarrow> None)
      | _ \<Rightarrow> None)"

text \<open>The properties of a mapping of the store, as values.\<close>

definition decodeProps :: "store \<Rightarrow> (string \<times> hval) list \<Rightarrow> obj" where
  "decodeProps h kvs = map (\<lambda>kv. (fst kv, decode h (snd kv))) kvs"

text \<open>
  \<open>simulates h f r\<close>: run in the store \<open>h\<close>, the step \<open>f\<close> produces \<open>r\<close> and leaves a store
  that is \<open>h\<close> with new objects in front.
\<close>

definition simulates :: "store \<Rightarrow> step \<Rightarrow> outcome \<Rightarrow> bool" where
  "simulates h f r = (fst (f h) = r \<and> grown h (snd (f h)) \<and> wfStore (snd (f h)))"

text \<open>
  \<open>stands h ctx ps ctxp reg\<close>: in the store \<open>h\<close> the arguments \<open>ctx\<close> and \<open>ps\<close> of a call
  are a context that stands for the mapping \<open>ctxp\<close> and a registry with the texts \<open>reg\<close>.
\<close>

definition stands :: "store \<Rightarrow> hval \<Rightarrow> hval \<Rightarrow> obj \<Rightarrow> (string \<rightharpoonup> string) \<Rightarrow> bool" where
  "stands h ctx ps ctxp reg =
     (wfStore h \<and>
      map_option (decodeProps h) (contextAt h ctx) = Some ctxp \<and>
      map_option textsOf (registryAt h ps) = Some reg)"

subsection \<open>Two stores with the same data\<close>

text \<open>
  The context \<^verbatim>\<open>{xs: [5, 9], site: {name: "S"}}\<close> and the registry \<^verbatim>\<open>{head: "<{{site.name}}>"}\<close>,
  laid out in two ways: in \<open>exampleStore\<close> the context is at address 3 and the registry
  at 4 (with an empty sequence at 1 that nothing refers to), in \<open>otherStore\<close> they are
  at 2 and 3.
\<close>

definition exampleStore :: store where
  "exampleStore =
     [CObj [(''head'', HStr ''<{{site.name}}>'')],
      CObj [(''xs'', HRef 2), (''site'', HRef 0)],
      CArr [HNum 5, HNum 9],
      CArr [],
      CObj [(''name'', HStr ''S'')]]"

definition otherStore :: store where
  "otherStore =
     [CObj [(''head'', HStr ''<{{site.name}}>'')],
      CObj [(''xs'', HRef 1), (''site'', HRef 0)],
      CArr [HNum 5, HNum 9],
      CObj [(''name'', HStr ''S'')]]"

section \<open>Path resolution and its guard\<close>













section \<open>How the renderer reads a tag\<close>

declare findBlockEnd_loop.simps [simp del]
declare render.simps(2) [simp del]

lemma drop_whole_prefix: "n = length xs \<Longrightarrow> drop n (xs @ ys) = ys"
  by simp

lemma startsWith_append [simp]: "startsWith (p @ r) p"
  by (induction p) auto

lemma startsWith_iff: "startsWith s p \<longleftrightarrow> take (length p) s = p"
  by (induction s p rule: startsWith.induct) auto

lemma not_space_pathChar: "isPathChar c \<Longrightarrow> \<not> isSpace c"
  by (auto simp: isPathChar_def isWord_def isSpace_def Let_def)

lemma char_class_facts [simp]:
  "\<not> isPathChar CHR ''}''" "\<not> isSpace CHR ''}''" "\<not> isWord CHR ''}''" "\<not> isVarChar CHR ''}''"
  "\<not> isPathChar CHR ''@''" "isVarChar CHR ''@''" "\<not> isVarChar CHR ''#''"  "\<not> isVarChar CHR ''/''"
  "isSpace CHR '' ''"
  by (simp_all add: isPathChar_def isWord_def isSpace_def isVarChar_def)

lemma andThen_emit_Nil [simp]: "andThen (emitText []) x = x" "andThen x (emitText []) = x"
  by (auto simp: andThen_def emitText_def split: option.splits sum.splits)

lemma matchBlock_tag_length:
  assumes "ws \<noteq> []" "list_all isSpace ws" "p \<noteq> []" "list_all isPathChar p"
  shows "matchBlock k (''{{#'' @ kindName k @ ws @ p @ ''}}'' @ rest) =
         Some (p, length (''{{#'' @ kindName k @ ws @ p @ ''}}''))"
proof -
  have p0: "\<not> isSpace (hd p)"
    using assms(3,4) by (cases p) (auto simp: not_space_pathChar)
  have ws: "takeWhile isSpace (ws @ p @ ''}}'' @ rest) = ws"
    using assms(2,3) p0 by (cases p) (auto simp: list_all_iff takeWhile_tail)
  have pa: "takeWhile isPathChar (p @ ''}}'' @ rest) = p"
    using assms(4) by (auto simp: list_all_iff takeWhile_tail)
  show ?thesis
    using assms(1,3) ws pa by (cases k) (simp_all add: matchBlock_def)
qed

lemma matchBlock_tag:
  assumes "ws \<noteq> []" "list_all isSpace ws" "p \<noteq> []" "list_all isPathChar p"
  shows "\<exists>len. matchBlock k (''{{#'' @ kindName k @ ws @ p @ ''}}'' @ rest) = Some (p, len) \<and>
               drop len (''{{#'' @ kindName k @ ws @ p @ ''}}'' @ rest) = rest"
proof -
  have "drop (length (''{{#'' @ kindName k @ ws @ p @ ''}}''))
             (''{{#'' @ kindName k @ ws @ p @ ''}}'' @ rest) = rest"
    using drop_whole_prefix [of _ "''{{#'' @ kindName k @ ws @ p @ ''}}''" rest] by simp
  with matchBlock_tag_length [OF assms, of k rest] show ?thesis
    by blast
qed

lemma indexOf_tag [simp]: "indexOf (CHR ''{'' # CHR ''{'' # r) ''{{'' = Some 0"
  by (simp add: indexOf_def)

lemma matchPartial_hash [simp]: "matchPartial (CHR ''{'' # CHR ''{'' # CHR ''#'' # r) = None"
  by (simp add: matchPartial_def)

lemma matchBlock_other [simp]:
  "matchBlock Each (CHR ''{'' # CHR ''{'' # CHR ''#'' # CHR ''i'' # r) = None"
  "matchBlock Each (CHR ''{'' # CHR ''{'' # CHR ''#'' # CHR ''u'' # r) = None"
  "matchBlock If (CHR ''{'' # CHR ''{'' # CHR ''#'' # CHR ''u'' # r) = None"
  "matchBlock If (CHR ''{'' # CHR ''{'' # CHR ''#'' # CHR ''e'' # r) = None"
  "matchBlock Unless (CHR ''{'' # CHR ''{'' # CHR ''#'' # CHR ''e'' # r) = None"
  "matchBlock Unless (CHR ''{'' # CHR ''{'' # CHR ''#'' # CHR ''i'' # r) = None"
  by (simp_all add: matchBlock_def)

lemma render_if_block:
  assumes "ws \<noteq> []" "list_all isSpace ws" "p \<noteq> []" "list_all isPathChar p"
  shows "render H (Suc n) (''{{#if'' @ ws @ p @ ''}}'' @ content) ctx ps =
     (case findBlockEnd content If of (body, rest) \<Rightarrow>
        (case resolvePath H (Obj ctx) p of
           Inl e \<Rightarrow> Some (Inl e)
         | Inr val \<Rightarrow>
             (case splitElse body of (ifBody, elseBody) \<Rightarrow>
                andThen (render H n (if truthy H val then ifBody else elseBody) ctx ps)
                        (render H n rest ctx ps))))"
proof -
  obtain len where "matchBlock If (''{{#if'' @ ws @ p @ ''}}'' @ content) = Some (p, len)"
    and "drop len (''{{#if'' @ ws @ p @ ''}}'' @ content) = content"
    using matchBlock_tag [OF assms, of If content] by auto
  then show ?thesis
    by (simp add: render.simps(2))
qed

lemma render_unless_block:
  assumes "ws \<noteq> []" "list_all isSpace ws" "p \<noteq> []" "list_all isPathChar p"
  shows "render H (Suc n) (''{{#unless'' @ ws @ p @ ''}}'' @ content) ctx ps =
     (case findBlockEnd content Unless of (body, rest) \<Rightarrow>
        (case resolvePath H (Obj ctx) p of
           Inl e \<Rightarrow> Some (Inl e)
         | Inr val \<Rightarrow>
             andThen (if \<not> truthy H val then render H n body ctx ps else emitText [])
                     (render H n rest ctx ps)))"
proof -
  obtain len where "matchBlock Unless (''{{#unless'' @ ws @ p @ ''}}'' @ content) = Some (p, len)"
    and "drop len (''{{#unless'' @ ws @ p @ ''}}'' @ content) = content"
    using matchBlock_tag [OF assms, of Unless content] by auto
  then show ?thesis
    by (simp add: render.simps(2))
qed

lemma render_each_block:
  assumes "ws \<noteq> []" "list_all isSpace ws" "p \<noteq> []" "list_all isPathChar p"
  shows "render H (Suc n) (''{{#each'' @ ws @ p @ ''}}'' @ content) ctx ps =
     (case findBlockEnd content Each of (body, rest) \<Rightarrow>
        (case resolvePath H (Obj ctx) p of
           Inl e \<Rightarrow> Some (Inl e)
         | Inr arr \<Rightarrow>
             andThen
               (case elementsOf H arr of
                  Some items \<Rightarrow>
                    joinAll (map (\<lambda>(item, index).
                                render H n body (itemContext ctx items item index) ps)
                             (zip items [0..<length items]))
                | None \<Rightarrow> emitText [])
               (render H n rest ctx ps)))"
proof -
  obtain len where "matchBlock Each (''{{#each'' @ ws @ p @ ''}}'' @ content) = Some (p, len)"
    and "drop len (''{{#each'' @ ws @ p @ ''}}'' @ content) = content"
    using matchBlock_tag [OF assms, of Each content] by auto
  then show ?thesis
    by (simp add: render.simps(2))
qed

lemma render_plain: "indexOf t ''{{'' = None \<Longrightarrow> render H (Suc n) t ctx ps = emitText t"
  by (simp add: render.simps(2) emitText_def)

section \<open>Truthiness in an if block\<close>

lemma findBlockEnd_A: "findBlockEnd ''A{{/if}}'' If = (''A'', [])"
  by code_simp

lemma render_if_A:
  assumes "p \<noteq> []" "list_all isPathChar p"
  shows "render H (Suc (Suc n)) (''{{#if '' @ p @ ''}}A{{/if}}'') ctx ps =
     (case resolvePath H (Obj ctx) p of
        Inl e \<Rightarrow> Some (Inl e)
      | Inr v \<Rightarrow> Some (Inr (if truthy H v then ''A'' else [], [])))"
proof -
  have A: "render H (Suc n) ''A'' ctx ps = emitText ''A''"
    by (rule render_plain) (simp add: indexOf_def)
  have E: "render H (Suc n) [] ctx ps = emitText []"
    by (simp add: render.simps(2))
  have S: "splitElse ''A'' = (''A'', [])"
    by (simp add: splitElse_def matchClosing_def)
  have "render H (Suc (Suc n)) (''{{#if'' @ '' '' @ p @ ''}}'' @ ''A{{/if}}'') ctx ps =
     (case resolvePath H (Obj ctx) p of
        Inl e \<Rightarrow> Some (Inl e)
      | Inr v \<Rightarrow> Some (Inr (if truthy H v then ''A'' else [], [])))"
    using assms
    by (subst render_if_block)
       (simp_all add: findBlockEnd_A S A E emitText_def andThen_def split: sum.splits)
  then show ?thesis by simp
qed

text \<open>
  C1, as the code has it. For a path \<open>p\<close> of word characters and dots the template
  \<^verbatim>\<open>{{#if p}}A{{/if}}\<close> renders to \<^verbatim>\<open>A\<close> when the value \<open>p\<close> resolves to is truthy and to
  the empty string when it is not; when the resolution of \<open>p\<close> raises, the rendering
  raises the same exception. Of the values of the data, the falsy ones are exactly
  \<^verbatim>\<open>undefined\<close>, \<^verbatim>\<open>null\<close>, \<^verbatim>\<open>false\<close>, 0 and the empty string: every sequence, the empty
  one too, and every mapping is truthy. A value of the host (a function, \<^verbatim>\<open>NaN\<close>) is
  truthy or falsy as the host coerces it. Two units of fuel are enough.
\<close>

theorem if_block_truthiness:
  assumes "p \<noteq> []" "list_all isPathChar p"
  shows "(\<forall>v. resolvePath H (Obj ctx) p = Inr v \<longrightarrow>
            render H (Suc (Suc n)) (''{{#if '' @ p @ ''}}A{{/if}}'') ctx ps =
              Some (Inr (if truthy H v then ''A'' else [], []))) \<and>
         (\<forall>e. resolvePath H (Obj ctx) p = Inl e \<longrightarrow>
            render H (Suc (Suc n)) (''{{#if '' @ p @ ''}}A{{/if}}'') ctx ps = Some (Inl e)) \<and>
         (\<forall>v. truthy H v \<longleftrightarrow>
            v \<noteq> Undefined \<and> v \<noteq> Null \<and> v \<noteq> Bool False \<and> v \<noteq> Num 0 \<and> v \<noteq> Str [] \<and>
            (\<forall>x. v = Host x \<longrightarrow> hostTruthy H x))"
proof -
  have "\<forall>v. truthy H v \<longleftrightarrow>
            v \<noteq> Undefined \<and> v \<noteq> Null \<and> v \<noteq> Bool False \<and> v \<noteq> Num 0 \<and> v \<noteq> Str [] \<and>
            (\<forall>x. v = Host x \<longrightarrow> hostTruthy H x)"
  proof
    fix v show "truthy H v \<longleftrightarrow>
            v \<noteq> Undefined \<and> v \<noteq> Null \<and> v \<noteq> Bool False \<and> v \<noteq> Num 0 \<and> v \<noteq> Str [] \<and>
            (\<forall>x. v = Host x \<longrightarrow> hostTruthy H x)"
      by (cases v) auto
  qed
  then show ?thesis
    using render_if_A [OF assms, of H n ctx ps] by simp
qed

theorem if_block_truthiness_witness:
  "render stdHost 2 ''{{#if a.b}}A{{/if}}'' [(''a'', Obj [(''b'', Arr [])])] Map.empty =
     Some (Inr (''A'', [])) \<and>
   render stdHost 2 ''{{#if n.constructor.NaN}}A{{/if}}'' [(''n'', Num 5)] Map.empty =
     Some (Inr ([], [])) \<and>
   render stdHost 2 ''{{#if toString}}A{{/if}}'' [] Map.empty = Some (Inr (''A'', [])) \<and>
   render stdHost 2 ''{{#if constructor.caller}}A{{/if}}'' [] Map.empty = Some (Inl TypeError)"
proof -
  have r1: "resolvePath stdHost (Obj [(''a'', Obj [(''b'', Arr [])])]) ''a.b'' = Inr (Arr [])"
    by code_simp
  have r2: "resolvePath stdHost (Obj [(''n'', Num 5)]) ''n.constructor.NaN'' = Inr (Host ''NaN'')"
    by code_simp
  have r3: "resolvePath stdHost (Obj []) ''toString'' = Inr (Host ''Object.prototype.toString'')"
    by code_simp
  have r4: "resolvePath stdHost (Obj []) ''constructor.caller'' = Inl TypeError"
    by code_simp
  have t2: "\<not> truthy stdHost (Host ''NaN'')" and t3: "truthy stdHost (Host ''Object.prototype.toString'')"
    by (simp_all add: stdHost_def)
  have p1: "''a.b'' \<noteq> []" "list_all isPathChar ''a.b''"
    and p2: "''n.constructor.NaN'' \<noteq> []" "list_all isPathChar ''n.constructor.NaN''"
    and p3: "''toString'' \<noteq> []" "list_all isPathChar ''toString''"
    and p4: "''constructor.caller'' \<noteq> []" "list_all isPathChar ''constructor.caller''"
    by (simp_all add: isPathChar_def isWord_def)
  from if_block_truthiness [OF p1, of stdHost "[(''a'', Obj [(''b'', Arr [])])]" 0 Map.empty] r1
  have a: "render stdHost 2 ''{{#if a.b}}A{{/if}}'' [(''a'', Obj [(''b'', Arr [])])] Map.empty =
     Some (Inr (''A'', []))"
    by (simp add: numeral_2_eq_2 del: render.simps)
  from if_block_truthiness [OF p2, of stdHost "[(''n'', Num 5)]" 0 Map.empty] r2 t2
  have b: "render stdHost 2 ''{{#if n.constructor.NaN}}A{{/if}}'' [(''n'', Num 5)] Map.empty =
     Some (Inr ([], []))"
    by (simp add: numeral_2_eq_2 del: render.simps)
  from if_block_truthiness [OF p3, of stdHost "[]" 0 Map.empty] r3 t3
  have c: "render stdHost 2 ''{{#if toString}}A{{/if}}'' [] Map.empty = Some (Inr (''A'', []))"
    by (simp add: numeral_2_eq_2 del: render.simps)
  from if_block_truthiness [OF p4, of stdHost "[]" 0 Map.empty] r4
  have d: "render stdHost 2 ''{{#if constructor.caller}}A{{/if}}'' [] Map.empty = Some (Inl TypeError)"
    by (simp add: numeral_2_eq_2 del: render.simps)
  from a b c d show ?thesis by simp
qed

text \<open>
  The claim's table fails at the empty sequence: with \<^verbatim>\<open>{v: []}\<close> the block renders its
  true branch.
\<close>

theorem if_block_empty_sequence_counterexample:
  "resolvePath stdHost (Obj [(''v'', Arr [])]) ''v'' = Inr (Arr []) \<and>
   render stdHost 2 ''{{#if v}}A{{/if}}'' [(''v'', Arr [])] Map.empty = Some (Inr (''A'', []))"
  by code_simp

section \<open>Block tags and the reserved names\<close>

lemma char_class_at [simp]: "\<not> isSpace CHR ''@''" "\<not> isWord CHR ''@''"
  by (simp_all add: isSpace_def isWord_def)

lemma takeWhile_space_path: "list_all isPathChar q \<Longrightarrow> takeWhile isSpace (q @ CHR ''@'' # r) = []"
  by (cases q) (auto simp: not_space_pathChar)

lemma takeWhile_path_at: "list_all isPathChar q \<Longrightarrow> takeWhile isPathChar (q @ CHR ''@'' # r) = q"
  by (simp add: takeWhile_tail list_all_iff)

lemma matchBlock_at:
  assumes "list_all isPathChar q"
  shows "matchBlock k (''{{#'' @ kindName k @ '' '' @ q @ ''@'' @ r) = None"
  using takeWhile_space_path [OF assms, of r] takeWhile_path_at [OF assms, of r]
  by (cases k) (simp_all add: matchBlock_def)

lemma matchVar_hash [simp]: "matchVar (CHR ''{'' # CHR ''{'' # CHR ''#'' # r) = None"
  by (simp add: matchVar_def)

lemma matchBlock_path:
  assumes "matchBlock k s = Some (p, len)"
  shows "list_all isPathChar p"
proof -
  from assms obtain t where "p = takeWhile isPathChar t"
    by (auto simp: matchBlock_def Let_def split: if_splits)
  then show ?thesis
    by (auto simp: list_all_iff dest: set_takeWhileD)
qed

text \<open>
  C9. A path captured by a block tag consists of word characters and dots, so it holds
  no \<^verbatim>\<open>@\<close>. A tag \<^verbatim>\<open>{{#if \<close>, \<^verbatim>\<open>{{#unless \<close> or \<^verbatim>\<open>{{#each \<close> whose path runs into an \<^verbatim>\<open>@\<close> (after
  any word characters and dots \<open>q\<close>, whatever \<open>r\<close> follows) is no block: the pass emits the
  two characters \<^verbatim>\<open>{{\<close> and goes on behind them. The variable pattern takes
  \<^verbatim>\<open>@index\<close>, \<^verbatim>\<open>@first\<close> and \<^verbatim>\<open>@last\<close>.
\<close>

theorem block_tags_reject_at:
  "(matchBlock k s = Some (p, len) \<longrightarrow> list_all isPathChar p \<and> CHR ''@'' \<notin> set p) \<and>
   (list_all isPathChar q \<longrightarrow>
      render H (Suc n) (''{{#if '' @ q @ ''@'' @ r) ctx ps =
        andThen (emitText ''{{'') (render H n (''#if '' @ q @ ''@'' @ r) ctx ps) \<and>
      render H (Suc n) (''{{#unless '' @ q @ ''@'' @ r) ctx ps =
        andThen (emitText ''{{'') (render H n (''#unless '' @ q @ ''@'' @ r) ctx ps) \<and>
      render H (Suc n) (''{{#each '' @ q @ ''@'' @ r) ctx ps =
        andThen (emitText ''{{'') (render H n (''#each '' @ q @ ''@'' @ r) ctx ps)) \<and>
   matchVar (''{{@index}}'' @ r) = Some (''@index'', 10) \<and>
   matchVar (''{{@first}}'' @ r) = Some (''@first'', 10) \<and>
   matchVar (''{{@last}}'' @ r) = Some (''@last'', 9)"
proof -
  have a: "list_all isPathChar p \<and> CHR ''@'' \<notin> set p" if "matchBlock k s = Some (p, len)"
    using matchBlock_path [OF that] by (auto simp: list_all_iff)
  have b: "render H (Suc n) (''{{#if '' @ q @ ''@'' @ r) ctx ps =
        andThen (emitText ''{{'') (render H n (''#if '' @ q @ ''@'' @ r) ctx ps)"
    "render H (Suc n) (''{{#unless '' @ q @ ''@'' @ r) ctx ps =
        andThen (emitText ''{{'') (render H n (''#unless '' @ q @ ''@'' @ r) ctx ps)"
    "render H (Suc n) (''{{#each '' @ q @ ''@'' @ r) ctx ps =
        andThen (emitText ''{{'') (render H n (''#each '' @ q @ ''@'' @ r) ctx ps)"
    if q: "list_all isPathChar q"
    using matchBlock_at [OF q, of If r] matchBlock_at [OF q, of Unless r]
      matchBlock_at [OF q, of Each r]
    by (simp_all add: render.simps(2))
  have c: "matchVar (''{{@index}}'' @ r) = Some (''@index'', 10)"
    "matchVar (''{{@first}}'' @ r) = Some (''@first'', 10)"
    "matchVar (''{{@last}}'' @ r) = Some (''@last'', 9)"
    by (simp_all add: matchVar_def isVarChar_def isWord_def)
  from a b c show ?thesis by blast
qed

theorem block_tags_reject_at_witness:
  "matchBlock If ''{{#if a.b}}x'' = Some (''a.b'', 11) \<and> CHR ''@'' \<notin> set ''a.b'' \<and>
   render stdHost 3 ''{{#if @first}}F{{/if}}'' [(''@first'', Bool True)] Map.empty =
     Some (Inr (''{{#if @first}}F{{/if}}'', [])) \<and>
   render stdHost 3 ''{{#unless @last}}, {{/unless}}'' [(''@last'', Bool False)] Map.empty =
     Some (Inr (''{{#unless @last}}, {{/unless}}'', []))"
proof -
  have m: "matchBlock If ''{{#if a.b}}x'' = Some (''a.b'', 11)"
    by code_simp
  have q: "list_all isPathChar []"
    by simp
  have r1: "render stdHost 2 ''#if @first}}F{{/if}}'' [(''@first'', Bool True)] Map.empty =
      Some (Inr (''#if @first}}F{{/if}}'', []))"
    by code_simp
  have r2: "render stdHost 2 ''#unless @last}}, {{/unless}}'' [(''@last'', Bool False)] Map.empty =
      Some (Inr (''#unless @last}}, {{/unless}}'', []))"
    by code_simp
  have e: "(3::nat) = Suc 2" by simp
  from m q r1 r2
    block_tags_reject_at [of If "''{{#if a.b}}x''" "''a.b''" 11 "[]" stdHost 2 "''first}}F{{/if}}''"
      "[(''@first'', Bool True)]" Map.empty]
    block_tags_reject_at [of If "''{{#if a.b}}x''" "''a.b''" 11 "[]" stdHost 2 "''last}}, {{/unless}}''"
      "[(''@last'', Bool False)]" Map.empty]
  show ?thesis
    unfolding e by (simp add: andThen_def emitText_def)
qed

section \<open>Partials\<close>

lemma not_space_word: "isWord c \<Longrightarrow> \<not> isSpace c"
  by (auto simp: isWord_def isSpace_def Let_def)

lemma dropWhile_space_word:
  "list_all isSpace ws \<Longrightarrow> name \<noteq> [] \<Longrightarrow> list_all isWord name \<Longrightarrow>
   dropWhile isSpace (ws @ name @ r) = name @ r"
  by (cases name) (auto simp: list_all_iff not_space_word dropWhile_append)

lemma takeWhile_word_name:
  "list_all isWord name \<Longrightarrow> list_all isSpace ws \<Longrightarrow>
   takeWhile isWord (name @ ws @ CHR ''}'' # r) = name"
  by (cases ws) (auto simp: list_all_iff takeWhile_tail not_space_word)

lemma dropWhile_space_close:
  "list_all isSpace ws \<Longrightarrow> dropWhile isSpace (ws @ CHR ''}'' # r) = CHR ''}'' # r"
  by (auto simp: list_all_iff dropWhile_append)

lemma matchPartial_tag:
  assumes "list_all isSpace ws1" "name \<noteq> []" "list_all isWord name" "list_all isSpace ws2"
  shows "\<exists>len. matchPartial (''{{>'' @ ws1 @ name @ ws2 @ ''}}'' @ rest) = Some (name, len) \<and>
               drop len (''{{>'' @ ws1 @ name @ ws2 @ ''}}'' @ rest) = rest"
proof -
  have d: "drop (length (''{{>'' @ ws1 @ name @ ws2 @ ''}}''))
             (''{{>'' @ ws1 @ name @ ws2 @ ''}}'' @ rest) = rest"
    using drop_whole_prefix [of _ "''{{>'' @ ws1 @ name @ ws2 @ ''}}''" rest] by simp
  have "matchPartial (''{{>'' @ ws1 @ name @ ws2 @ ''}}'' @ rest) =
          Some (name, length (''{{>'' @ ws1 @ name @ ws2 @ ''}}''))"
    using assms(2) dropWhile_space_word [OF assms(1,2,3), of "ws2 @ ''}}'' @ rest"]
      takeWhile_word_name [OF assms(3,4), of "CHR ''}'' # rest"]
      dropWhile_space_close [OF assms(4), of "CHR ''}'' # rest"]
    by (simp add: matchPartial_def)
  with d show ?thesis by blast
qed

lemma render_partial_tag:
  assumes "list_all isSpace ws1" "name \<noteq> []" "list_all isWord name" "list_all isSpace ws2"
  shows "render H (Suc n) (''{{>'' @ ws1 @ name @ ws2 @ ''}}'' @ rest) ctx ps =
     (case lookupPartial H ps name of
        Inl e \<Rightarrow> Some (Inl e)
      | Inr partial \<Rightarrow>
          andThen
            (if \<not> truthy H partial then warnMissing name
             else case partial of
                    Str text \<Rightarrow> render H n text ctx ps
                  | _ \<Rightarrow> (case nonStringTemplate H partial of
                            Inl e \<Rightarrow> Some (Inl e)
                          | Inr out \<Rightarrow> emitText out))
            (render H n rest ctx ps))"
proof -
  obtain len where "matchPartial (''{{>'' @ ws1 @ name @ ws2 @ ''}}'' @ rest) = Some (name, len)"
    and "drop len (''{{>'' @ ws1 @ name @ ws2 @ ''}}'' @ rest) = rest"
    using matchPartial_tag [OF assms, of rest] by auto
  then show ?thesis
    by (simp add: render.simps(2) split: sum.splits)
qed

lemma outputOf_warn: "outputOf (andThen (warnMissing name) r) = outputOf r"
  by (auto simp: outputOf_def andThen_def warnMissing_def split: option.splits sum.splits)

lemma render_Nil: "render H (Suc n) [] ctx ps = emitText []"
  by (simp add: render.simps(2))

lemma outputOf_empty_partial:
  "outputOf (andThen (render H n [] ctx ps) (render H n rest ctx ps)) = outputOf (render H n rest ctx ps)"
proof (cases n)
  case 0
  then show ?thesis by (simp add: andThen_def)
next
  case (Suc m)
  then show ?thesis by (simp add: render_Nil)
qed

text \<open>
  A partial tag is \<^verbatim>\<open>{{>\<close>, any white space, a name of word characters, any white
  space, \<^verbatim>\<open>}}\<close>. When the registry has no entry for the name and its prototype has no
  member of that name, the pass writes the warning, adds nothing to the output and goes
  on with the text behind the tag. When the registry has the entry \<open>txt\<close>, the output is
  that of rendering \<open>txt\<close> with the same context and the same registry, followed by the
  output for the text behind the tag. (For an empty \<open>txt\<close> the code writes the warning as
  well and makes no call; the output is the same.)
\<close>

lemma partial_tag_own_names:
  assumes "list_all isSpace ws1" "name \<noteq> []" "list_all isWord name" "list_all isSpace ws2"
  shows
   "(ps name = None \<longrightarrow> inherited H OfObject name = None \<longrightarrow>
       render H (Suc n) (''{{>'' @ ws1 @ name @ ws2 @ ''}}'' @ rest) ctx ps =
         andThen (warnMissing name) (render H n rest ctx ps) \<and>
       outputOf (render H (Suc n) (''{{>'' @ ws1 @ name @ ws2 @ ''}}'' @ rest) ctx ps) =
         outputOf (render H n rest ctx ps)) \<and>
    (\<forall>txt. ps name = Some txt \<longrightarrow>
       outputOf (render H (Suc n) (''{{>'' @ ws1 @ name @ ws2 @ ''}}'' @ rest) ctx ps) =
         outputOf (andThen (render H n txt ctx ps) (render H n rest ctx ps)) \<and>
       (txt \<noteq> [] \<longrightarrow>
          render H (Suc n) (''{{>'' @ ws1 @ name @ ws2 @ ''}}'' @ rest) ctx ps =
            andThen (render H n txt ctx ps) (render H n rest ctx ps)))"
  using render_partial_tag [OF assms, of H n rest ctx ps]
  by (auto simp: outputOf_warn outputOf_empty_partial lookupPartial_def viaChain_def)

lemma partial_tag_own_names_example:
  "render stdHost 4 ''{{> head}}{{> nope}}!'' [(''site'', Obj [(''name'', Str ''S'')])]
      [''head'' \<mapsto> ''<{{site.name}}>''] =
     Some (Inr (''<S>!'', [''Warning: Partial '' @ [CHR 0x22] @ ''nope'' @ [CHR 0x22] @ '' not found'']))"
proof -
  have h: "list_all isSpace '' ''" "''head'' \<noteq> []" "list_all isWord ''head''" "list_all isSpace []"
    by (simp_all add: isWord_def)
  have g: "list_all isSpace '' ''" "''nope'' \<noteq> []" "list_all isWord ''nope''" "list_all isSpace []"
    by (simp_all add: isWord_def)
  have i: "inherited stdHost OfObject ''nope'' = None"
    by (simp add: stdHost_def stdInherited_def)
  have p: "render stdHost 3 ''<{{site.name}}>'' [(''site'', Obj [(''name'', Str ''S'')])]
      [''head'' \<mapsto> ''<{{site.name}}>''] = Some (Inr (''<S>'', []))"
    by code_simp
  have r: "render stdHost 2 ''!'' [(''site'', Obj [(''name'', Str ''S'')])]
      [''head'' \<mapsto> ''<{{site.name}}>''] = Some (Inr (''!'', []))"
    by code_simp
  have e: "(4::nat) = Suc 3" "(3::nat) = Suc 2" by simp_all
  from p r i
    partial_tag_own_names [OF h, of "[''head'' \<mapsto> ''<{{site.name}}>'']" stdHost 3 "''{{> nope}}!''"
      "[(''site'', Obj [(''name'', Str ''S'')])]"]
    partial_tag_own_names [OF g, of "[''head'' \<mapsto> ''<{{site.name}}>'']" stdHost 2 "''!''"
      "[(''site'', Obj [(''name'', Str ''S'')])]"]
  show ?thesis
    unfolding e by (simp add: andThen_def warnMissing_def)
qed

text \<open>
  C7. The registry is read with \<^verbatim>\<open>partials[name]\<close>, which goes up the prototype chain of
  the registry object. The name \<^verbatim>\<open>constructor\<close> is absent from the empty registry, and the
  read gives the function \<^verbatim>\<open>Object\<close>, which is truthy: the code calls \<^verbatim>\<open>render\<close> on it,
  enters the loop (its \<^verbatim>\<open>length\<close> is 1) and throws at \<^verbatim>\<open>remaining.indexOf\<close>. The render
  of \<^verbatim>\<open>{{> constructor}}x\<close> aborts, where a diagnostic and the output \<^verbatim>\<open>x\<close> are due, as
  the tag \<^verbatim>\<open>{{> nope}}\<close> gets them.
\<close>

theorem partial_lookup_reads_prototype:
  "Map.empty ''constructor'' = (None :: string option) \<and>
   lookupPartial stdHost Map.empty ''constructor'' = Inr (Host ''Object'') \<and>
   render stdHost 3 ''{{> constructor}}x'' [] Map.empty = Some (Inl TypeError) \<and>
   render stdHost 3 ''{{> nope}}x'' [] Map.empty =
     Some (Inr (''x'', [''Warning: Partial '' @ [CHR 0x22] @ ''nope'' @ [CHR 0x22] @ '' not found'']))"
  by code_simp

section \<open>Each blocks\<close>

lemma map_zip_index:
  "map (\<lambda>(item, index). f item index) (zip items [0..<length items]) =
   map (\<lambda>i. f (items ! i) i) [0..<length items]"
  by (rule nth_equalityI) auto

lemma joinAll_returns:
  "joinAll (map (\<lambda>r. Some (Inr r)) rs) = Some (Inr (concat (map fst rs), concat (map snd rs)))"
  by (induction rs) (auto simp: joinAll_def andThen_def emitText_def)

lemma itemContext_lookup:
  "map_of (itemContext ctx items item i) =
     (map_of ctx)(''this'' \<mapsto> item, ''@index'' \<mapsto> Num (int i), ''@first'' \<mapsto> Bool (i = 0),
                  ''@last'' \<mapsto> Bool (int i = int (length items) - 1))"
  by (simp add: itemContext_def update_conv')

text \<open>
  C5. Let an each tag be followed by \<open>content\<close>, of which the scanner gives \<open>body\<close> and
  \<open>rest\<close>, and let the path resolve to \<open>v\<close>. When \<open>v\<close> is a sequence, the block's part
  of the result is the join, in the order of the elements, of the renders of \<open>body\<close>
  under the derived contexts; a join of returned parts is the concatenation of their
  outputs. When \<open>v\<close> is no sequence, the block adds nothing. The derived context for
  element \<open>i\<close> binds \<^verbatim>\<open>this\<close>, \<^verbatim>\<open>@index\<close>, \<^verbatim>\<open>@first\<close> and \<^verbatim>\<open>@last\<close>, and every other
  name is bound as in the enclosing context.
\<close>

theorem each_block_iteration:
  assumes "ws \<noteq> []" "list_all isSpace ws" "p \<noteq> []" "list_all isPathChar p"
    and "findBlockEnd content Each = (body, rest)"
    and "resolvePath H (Obj ctx) p = Inr v"
  shows
   "(\<forall>items. v = Arr items \<longrightarrow>
       render H (Suc n) (''{{#each'' @ ws @ p @ ''}}'' @ content) ctx ps =
         andThen
           (joinAll (map (\<lambda>i. render H n body (itemContext ctx items (items ! i) i) ps)
                         [0..<length items]))
           (render H n rest ctx ps)) \<and>
    (\<not> isArray H v \<longrightarrow>
       render H (Suc n) (''{{#each'' @ ws @ p @ ''}}'' @ content) ctx ps = render H n rest ctx ps) \<and>
    joinAll (map (\<lambda>r. Some (Inr r)) rs) = Some (Inr (concat (map fst rs), concat (map snd rs))) \<and>
    map_of (itemContext ctx items item i) ''this'' = Some item \<and>
    map_of (itemContext ctx items item i) ''@index'' = Some (Num (int i)) \<and>
    map_of (itemContext ctx items item i) ''@first'' = Some (Bool (i = 0)) \<and>
    map_of (itemContext ctx items item i) ''@last'' = Some (Bool (Suc i = length items)) \<and>
    (k \<notin> {''this'', ''@index'', ''@first'', ''@last''} \<longrightarrow>
       map_of (itemContext ctx items item i) k = map_of ctx k)"
proof -
  note step = render_each_block [OF assms(1-4), of H n content ctx ps]
  have arr: "render H (Suc n) (''{{#each'' @ ws @ p @ ''}}'' @ content) ctx ps =
         andThen
           (joinAll (map (\<lambda>i. render H n body (itemContext ctx xs (xs ! i) i) ps) [0..<length xs]))
           (render H n rest ctx ps)" if "v = Arr xs" for xs
    unfolding step using that assms(5,6) by (simp add: map_zip_index)
  have other: "render H (Suc n) (''{{#each'' @ ws @ p @ ''}}'' @ content) ctx ps = render H n rest ctx ps"
    if "\<not> isArray H v"
    unfolding step using that assms(5,6) by (simp add: isArray_def)
  have last: "(int i = int (length items) - 1) = (Suc i = length items)"
    by auto
  have ctx: "map_of (itemContext ctx items item i) ''this'' = Some item"
    "map_of (itemContext ctx items item i) ''@index'' = Some (Num (int i))"
    "map_of (itemContext ctx items item i) ''@first'' = Some (Bool (i = 0))"
    "map_of (itemContext ctx items item i) ''@last'' = Some (Bool (Suc i = length items))"
    "k \<notin> {''this'', ''@index'', ''@first'', ''@last''} \<longrightarrow>
       map_of (itemContext ctx items item i) k = map_of ctx k"
    by (simp_all add: itemContext_lookup last)
  from arr other ctx joinAll_returns [of rs] show ?thesis
    by blast
qed

theorem each_block_iteration_witness:
  "render stdHost 6 ''{{#each xs}}{{@index}}:{{this.n}} {{/each}}.''
      [(''xs'', Arr [Obj [(''n'', Num 5)], Obj [(''n'', Num 9)]])] Map.empty =
     Some (Inr (''0:5 1:9 .'', [])) \<and>
   render stdHost 2 ''{{#each xs}}{{@index}}:{{this.n}} {{/each}}.'' [(''xs'', Num 3)] Map.empty =
     Some (Inr (''.'', []))"
proof -
  have t: "'' '' \<noteq> []" "list_all isSpace '' ''" "''xs'' \<noteq> []" "list_all isPathChar ''xs''"
    by (simp_all add: isPathChar_def isWord_def)
  have f: "findBlockEnd ''{{@index}}:{{this.n}} {{/each}}.'' Each = (''{{@index}}:{{this.n}} '', ''.'')"
    by code_simp
  have r: "resolvePath stdHost (Obj [(''xs'', Arr [Obj [(''n'', Num 5)], Obj [(''n'', Num 9)]])]) ''xs''
           = Inr (Arr [Obj [(''n'', Num 5)], Obj [(''n'', Num 9)]])"
    by code_simp
  have r': "resolvePath stdHost (Obj [(''xs'', Num 3)]) ''xs'' = Inr (Num 3)"
    by code_simp
  have b0: "render stdHost 5 ''{{@index}}:{{this.n}} ''
      (itemContext [(''xs'', Arr [Obj [(''n'', Num 5)], Obj [(''n'', Num 9)]])]
         [Obj [(''n'', Num 5)], Obj [(''n'', Num 9)]] (Obj [(''n'', Num 5)]) 0) Map.empty
      = Some (Inr (''0:5 '', []))"
    by code_simp
  have b1: "render stdHost 5 ''{{@index}}:{{this.n}} ''
      (itemContext [(''xs'', Arr [Obj [(''n'', Num 5)], Obj [(''n'', Num 9)]])]
         [Obj [(''n'', Num 5)], Obj [(''n'', Num 9)]] (Obj [(''n'', Num 9)]) (Suc 0)) Map.empty
      = Some (Inr (''1:9 '', []))"
    by code_simp
  have c: "render stdHost 5 ''.'' [(''xs'', Arr [Obj [(''n'', Num 5)], Obj [(''n'', Num 9)]])] Map.empty
      = Some (Inr (''.'', []))"
    by code_simp
  have c': "render stdHost 1 ''.'' [(''xs'', Num 3)] Map.empty = Some (Inr (''.'', []))"
    by code_simp
  have e: "(6::nat) = Suc 5" "(2::nat) = Suc 1" by simp_all
  have u: "[0..<2] = [0, Suc 0]" by (simp add: upt_rec)
  from b0 b1 c c'
    each_block_iteration [OF t f r, of 5 Map.empty]
    each_block_iteration [OF t f r', of 1 Map.empty]
  show ?thesis
    unfolding e by (simp add: u joinAll_def andThen_def emitText_def isArray_def)
qed

section \<open>The block scanner against a depth counter\<close>

lemma startsWith_prefix: "startsWith s (a @ b) \<Longrightarrow> startsWith s a"
  by (induction s a rule: startsWith.induct) auto

lemma startsWith_take: "startsWith s p \<longleftrightarrow> take (length p) s = p"
  by (induction s p rule: startsWith.induct) auto

lemma startsWith_same:
  assumes "startsWith s a" "startsWith s b" "length a \<le> length b"
  shows "startsWith b a"
proof -
  from assms(1,2) have "take (length a) s = a" "take (length b) s = b"
    by (simp_all add: startsWith_take)
  then have "take (length a) b = a"
    using assms(3) by (metis min.absorb1 take_take)
  then show ?thesis
    by (simp add: startsWith_take)
qed

lemma tags_exclusive:
  "startsWith s ''{{#each'' \<Longrightarrow> \<not> startsWith s ''{{#if''"
  "startsWith s ''{{#each'' \<Longrightarrow> \<not> startsWith s ''{{#unless''"
  "startsWith s ''{{#if'' \<Longrightarrow> \<not> startsWith s ''{{#unless''"
  "startsWith s ''{{/each}}'' \<Longrightarrow> \<not> startsWith s ''{{/if}}''"
  "startsWith s ''{{/each}}'' \<Longrightarrow> \<not> startsWith s ''{{/unless}}''"
  "startsWith s ''{{/if}}'' \<Longrightarrow> \<not> startsWith s ''{{/unless}}''"
  using startsWith_same [of s "''{{#if''" "''{{#each''"]
    startsWith_same [of s "''{{#each''" "''{{#unless''"]
    startsWith_same [of s "''{{#if''" "''{{#unless''"]
    startsWith_same [of s "''{{/if}}''" "''{{/each}}''"]
    startsWith_same [of s "''{{/each}}''" "''{{/unless}}''"]
    startsWith_same [of s "''{{/if}}''" "''{{/unless}}''"]
  by auto

lemma matchOpenAt_opening: "matchOpenAt tag s \<noteq> None \<longleftrightarrow> openingTagAt s"
  by (cases tag) (auto simp: matchOpenAt_def openingTagAt_def alternatives_def)

lemma matchCloseAt_closing: "matchCloseAt tag s = closingTagAt s"
  by (cases tag) (auto simp: matchCloseAt_def closingTagAt_def alternatives_def dest: tags_exclusive)

lemma startsWith_first3: "startsWith s (x # y # z # r) \<Longrightarrow> startsWith s [x, y, z]"
  using startsWith_prefix [of s "[x, y, z]" r] by simp

lemma startsWith_first2: "startsWith s (x # y # r) \<Longrightarrow> startsWith s [x, y]"
  using startsWith_prefix [of s "[x, y]" r] by simp

lemma openingTagAt_prefix: "openingTagAt s \<Longrightarrow> startsWith s ''{{#''"
  by (auto simp: openingTagAt_def dest: startsWith_first3)

lemma closingTagAt_prefix: "closingTagAt s = Some l \<Longrightarrow> startsWith s ''{{/''"
  by (auto simp: closingTagAt_def dest: startsWith_first3 split: if_splits)

lemma tokenAt_braces: "tokenAt t \<Longrightarrow> startsWith t ''{{''"
  by (auto simp: tokenAt_def dest!: openingTagAt_prefix closingTagAt_prefix dest: startsWith_first2)

lemma not_both_tags: "openingTagAt s \<Longrightarrow> closingTagAt s = None"
proof (rule ccontr)
  assume o: "openingTagAt s" and "closingTagAt s \<noteq> None"
  then obtain l where "closingTagAt s = Some l" by auto
  then have "startsWith s ''{{/''" by (rule closingTagAt_prefix)
  with openingTagAt_prefix [OF o] startsWith_same [of s "''{{#''" "''{{/''"]
  show False by simp
qed

lemma inside_no_braces:
  assumes "CHR ''{'' \<notin> set (drop 2 pre)" "0 < j" "j < length pre" "2 < length pre"
  shows "\<not> startsWith (drop j (pre @ r)) ''{{''"
proof (cases "j = 1")
  case True
  from assms(4) obtain a b c t where pre: "pre = a # b # c # t"
    by (cases pre; cases "tl pre"; cases "tl (tl pre)") auto
  with assms(1) True show ?thesis by auto
next
  case False
  with assms(2) have j: "2 \<le> j" by simp
  have "drop j (pre @ r) = pre ! j # drop (Suc j) pre @ r"
    using assms(3) by (simp add: Cons_nth_drop_Suc)
  moreover have "pre ! j \<in> set (drop 2 pre)"
  proof -
    have "2 + (j - 2) = j"
      using j by simp
    then have "drop 2 pre ! (j - 2) = pre ! j"
      using assms(3) by (simp del: One_nat_def add_2_eq_Suc add_2_eq_Suc')
    moreover have "j - 2 < length (drop 2 pre)"
      using j assms(3) by simp
    ultimately show ?thesis
      by (metis nth_mem)
  qed
  ultimately show ?thesis
    using assms(1) by auto
qed

lemma find_SomeD: "find P xs = Some x \<Longrightarrow> P x \<and> x \<in> set xs"
  by (induction xs) (auto split: if_splits)

lemma alternatives_names: "a \<in> set (alternatives tag) \<Longrightarrow> a = ''each'' \<or> a = ''if'' \<or> a = ''unless''"
  by (cases tag) (auto simp: alternatives_def)

lemma opening_shape:
  assumes "matchOpenAt tag s = Some l"
  shows "\<exists>pre r. s = pre @ r \<and> length pre = l \<and> 2 < l \<and> CHR ''{'' \<notin> set (drop 2 pre)"
proof -
  from assms obtain a where f: "find (\<lambda>a. startsWith s (''{{#'' @ a) \<and>
        (case drop (3 + length a) s of [] \<Rightarrow> False | c # cs \<Rightarrow> isSpace c)) (alternatives tag) = Some a"
    and l: "l = 3 + length a + 1"
    by (auto simp: matchOpenAt_def split: option.splits)
  from find_SomeD [OF f] obtain c cs where a: "a \<in> set (alternatives tag)"
    and st: "startsWith s (''{{#'' @ a)" and dr: "drop (3 + length a) s = c # cs" and sp: "isSpace c"
    by (auto split: list.splits)
  have c: "c \<noteq> CHR ''{''"
    using sp by (auto simp: isSpace_def)
  from st have "take (3 + length a) s = ''{{#'' @ a"
    using startsWith_take [of s "''{{#'' @ a"] by (simp add: numeral_3_eq_3)
  with dr have s: "s = (''{{#'' @ a @ [c]) @ cs"
    by (metis append_Cons append_Nil append_assoc append_take_drop_id)
  have "CHR ''{'' \<notin> set (drop 2 (''{{#'' @ a @ [c]))"
    using alternatives_names [OF a] c by auto
  with s l show ?thesis
    by (intro exI [of _ "''{{#'' @ a @ [c]"] exI [of _ cs]) simp
qed

lemma closing_shape:
  assumes "closingTagAt s = Some l"
  shows "\<exists>pre r. s = pre @ r \<and> length pre = l \<and> 2 < l \<and> CHR ''{'' \<notin> set (drop 2 pre)"
proof -
  have *: "\<exists>pre r. s = pre @ r \<and> length pre = length a \<and> 2 < length a \<and>
              CHR ''{'' \<notin> set (drop 2 pre)"
    if "startsWith s a" "CHR ''{'' \<notin> set (drop 2 a)" "2 < length a" for a
  proof -
    from that(1) have "s = a @ drop (length a) s"
      by (metis append_take_drop_id startsWith_take)
    with that(2,3) show ?thesis by blast
  qed
  from assms show ?thesis
    by (auto simp: closingTagAt_def split: if_splits
         dest!: * [of "''{{/each}}''"] * [of "''{{/if}}''"] * [of "''{{/unless}}''"])
qed

lemma searchFrom_Some:
  "searchFrom m s i = Some (j, l) \<Longrightarrow>
   \<exists>k. j = i + k \<and> k \<le> length s \<and> m (drop k s) = Some l \<and> (\<forall>k'<k. m (drop k' s) = None)"
proof (induction s arbitrary: i)
  case Nil
  then show ?case by (auto split: option.splits)
next
  case (Cons c cs)
  show ?case
  proof (cases "m (c # cs)")
    case (Some l')
    with Cons.prems show ?thesis by (intro exI [of _ 0]) auto
  next
    case None
    with Cons.prems have "searchFrom m cs (Suc i) = Some (j, l)" by simp
    from Cons.IH [OF this] obtain k where k: "j = Suc i + k" "k \<le> length cs"
      "m (drop k cs) = Some l" "\<forall>k'<k. m (drop k' cs) = None"
      by blast
    have "\<forall>k'<Suc k. m (drop k' (c # cs)) = None"
    proof (intro allI impI)
      fix k' assume "k' < Suc k"
      then show "m (drop k' (c # cs)) = None"
        using None k(4) by (cases k') auto
    qed
    with k show ?thesis by (intro exI [of _ "Suc k"]) auto
  qed
qed

lemma searchFrom_None:
  "searchFrom m s i = None \<Longrightarrow> k \<le> length s \<Longrightarrow> m (drop k s) = None"
proof (induction s arbitrary: i k)
  case Nil
  then show ?case by (auto split: option.splits)
next
  case (Cons c cs)
  then show ?case by (cases k) (auto split: option.splits)
qed

lemma scan_skip:
  assumes "\<forall>j<k. \<not> tokenAt (drop j s)" "k \<le> length s"
  shows "scanDepth s d i = scanDepth (drop k s) d (i + k)"
  using assms
proof (induction k arbitrary: s i)
  case 0
  show ?case by simp
next
  case (Suc k)
  then obtain c cs where s: "s = c # cs" by (cases s) auto
  from Suc.prems(1) have "\<not> tokenAt s" by force
  then have "scanDepth s d i = scanDepth cs d (Suc i)"
    by (simp add: s tokenAt_def)
  moreover have "\<forall>j<k. \<not> tokenAt (drop j cs)"
    using Suc.prems(1) s by (metis Suc_less_eq drop_Suc_Cons)
  ultimately show ?case
    using Suc.IH [of cs "Suc i"] Suc.prems(2) s by simp
qed

lemma scan_no_close:
  "(\<And>j. j \<le> length s \<Longrightarrow> closingTagAt (drop j s) = None) \<Longrightarrow> scanDepth s d i = None"
proof (induction s arbitrary: d i)
  case Nil
  show ?case by simp
next
  case (Cons c cs)
  have 0: "closingTagAt (c # cs) = None"
    using Cons.prems [of 0] by simp
  have "closingTagAt (drop j cs) = None" if "j \<le> length cs" for j
    using Cons.prems [of "Suc j"] that by simp
  then have "scanDepth cs d' i' = None" for d' i'
    by (rule Cons.IH)
  with 0 show ?case by simp
qed

lemma inside_no_token:
  assumes "s = pre @ r" "length pre = l" "2 < l" "CHR ''{'' \<notin> set (drop 2 pre)"
  shows "\<forall>j<l - 1. \<not> tokenAt (drop j (drop 1 s))"
proof (intro allI impI)
  fix j assume "j < l - 1"
  then have "\<not> startsWith (drop (Suc j) (pre @ r)) ''{{''"
    using assms(2,3,4) by (intro inside_no_braces) auto
  moreover have "drop j (drop 1 s) = drop (Suc j) s"
    by simp
  ultimately show "\<not> tokenAt (drop j (drop 1 s))"
    unfolding assms(1) using tokenAt_braces by metis
qed

lemma scan_open_tag:
  assumes "matchOpenAt tag s = Some l"
  shows "scanDepth s d i = scanDepth (drop l s) (d + 1) (i + l)"
proof -
  from opening_shape [OF assms] obtain pre r where sh: "s = pre @ r" "length pre = l" "2 < l"
    "CHR ''{'' \<notin> set (drop 2 pre)" by blast
  from sh(1,2,3) have "s \<noteq> []" by auto
  then obtain c cs where s: "s = c # cs" by (cases s) auto
  have "openingTagAt s"
    using assms matchOpenAt_opening [of tag s] by simp
  then have "scanDepth s d i = scanDepth (drop 1 s) (d + 1) (Suc i)"
    by (simp add: s)
  also have "\<dots> = scanDepth (drop (l - 1) (drop 1 s)) (d + 1) (Suc i + (l - 1))"
    using inside_no_token [OF sh] sh(1,2,3) by (intro scan_skip) auto
  finally show ?thesis
    using sh(3) by simp
qed

lemma scan_close_tag:
  assumes "closingTagAt s = Some l"
  shows "scanDepth s d i = (if d = 1 then Some (i, l) else scanDepth (drop l s) (d - 1) (i + l))"
proof -
  from closing_shape [OF assms] obtain pre r where sh: "s = pre @ r" "length pre = l" "2 < l"
    "CHR ''{'' \<notin> set (drop 2 pre)" by blast
  from sh(1,2,3) have "s \<noteq> []" by auto
  then obtain c cs where s: "s = c # cs" by (cases s) auto
  have no: "\<not> openingTagAt s"
    using assms not_both_tags [of s] by auto
  have "scanDepth (drop 1 s) (d - 1) (Suc i) =
        scanDepth (drop (l - 1) (drop 1 s)) (d - 1) (Suc i + (l - 1))"
    using inside_no_token [OF sh] sh(1,2,3) by (intro scan_skip) auto
  moreover have "drop l (c # cs) = drop (l - 1) cs"
    using sh(3) by (cases l) auto
  ultimately show ?thesis
    using sh(3) assms no by (simp add: s)
qed

lemma search_Some:
  assumes "search m s = Some (j, l)"
  shows "j \<le> length s" "m (drop j s) = Some l" "\<And>k. k < j \<Longrightarrow> m (drop k s) = None"
  using searchFrom_Some [of m s 0 j l] assms by (auto simp: search_def)

lemma search_None: "search m s = None \<Longrightarrow> k \<le> length s \<Longrightarrow> m (drop k s) = None"
  unfolding search_def by (rule searchFrom_None)

lemma not_opening: "matchOpenAt tag t = None \<Longrightarrow> \<not> openingTagAt t"
  using matchOpenAt_opening [of tag t] by simp

lemma loop_is_scan:
  "0 < d \<Longrightarrow>
   findBlockEnd_loop tag content d pos =
     (case scanDepth (drop pos content) d pos of
        Some (p, l) \<Rightarrow> (take p content, drop (p + l) content)
      | None \<Rightarrow> (content, []))"
proof (induction tag content d pos rule: findBlockEnd_loop.induct)
  case (1 tag content depth pos)
  define s where "s = drop pos content"
  show ?case
  proof (cases "pos < length content")
    case False
    then show ?thesis
      by (simp add: findBlockEnd_loop.simps [of tag content depth pos])
  next
    case inside: True
    show ?thesis
    proof (cases "search (matchCloseAt tag) s")
      case None
      have "closingTagAt (drop j s) = None" if "j \<le> length s" for j
        using search_None [OF None that] by (simp add: matchCloseAt_closing)
      then have "scanDepth s depth pos = None"
        by (rule scan_no_close)
      with None inside "1.prems" show ?thesis
        by (simp add: findBlockEnd_loop.simps [of tag content depth pos] s_def)
    next
      case (Some cm)
      obtain ci cl where cm: "cm = (ci, cl)" by (cases cm)
      note close = search_Some [OF Some [unfolded cm]]
      have closeNone: "closingTagAt (drop k s) = None" if "k < ci" for k
        using close(3) [OF that] by (simp add: matchCloseAt_closing)
      have closeAt: "closingTagAt (drop ci s) = Some cl"
        using close(2) by (simp add: matchCloseAt_closing)
      show ?thesis
      proof (cases "openFirst (search (matchOpenAt tag) s) ci")
        case openSome: (Some om)
        obtain oi ol where om: "om = (oi, ol)" by (cases om)
        from openSome have so: "search (matchOpenAt tag) s = Some (oi, ol)" and lt: "oi < ci"
          by (auto simp: openFirst_def om split: option.splits if_splits)
        note opn = search_Some [OF so]
        have "\<forall>j<oi. \<not> tokenAt (drop j s)"
          using opn(3) closeNone lt by (auto simp: tokenAt_def dest!: not_opening)
        then have "scanDepth s depth pos = scanDepth (drop oi s) depth (pos + oi)"
          using opn(1) by (rule scan_skip)
        also have "\<dots> = scanDepth (drop ol (drop oi s)) (depth + 1) (pos + oi + ol)"
          using opn(2) by (rule scan_open_tag)
        also have "drop ol (drop oi s) = drop (pos + oi + ol) content"
          by (simp add: s_def add.commute add.left_commute)
        finally have sc: "scanDepth s depth pos =
            scanDepth (drop (pos + oi + ol) content) (depth + 1) (pos + oi + ol)" .
        have "findBlockEnd_loop tag content depth pos =
              findBlockEnd_loop tag content (depth + 1) (pos + oi + ol)"
          using inside "1.prems" Some openSome
          by (simp add: findBlockEnd_loop.simps [of tag content depth pos] s_def cm om)
        also have "\<dots> = (case scanDepth (drop (pos + oi + ol) content) (depth + 1) (pos + oi + ol) of
              Some (p, l) \<Rightarrow> (take p content, drop (p + l) content) | None \<Rightarrow> (content, []))"
          using inside "1.prems" Some openSome
          by (intro "1.IH"(2) [of cm ci cl om oi ol]) (simp_all add: s_def cm om)
        finally show ?thesis
          using sc by (simp add: s_def)
      next
        case openNone: None
        have openNo: "\<not> openingTagAt (drop k s)" if "k < ci" for k
        proof (cases "search (matchOpenAt tag) s")
          case None
          from that close(1) have "k \<le> length s" by simp
          from search_None [OF None this] show ?thesis
            by (rule not_opening)
        next
          case (Some om)
          obtain oi ol where om: "om = (oi, ol)" by (cases om)
          with openNone Some have "ci \<le> oi"
            by (auto simp: openFirst_def split: if_splits)
          with that have "k < oi" by simp
          from search_Some(3) [OF Some [unfolded om] this] show ?thesis
            by (rule not_opening)
        qed
        have "\<forall>j<ci. \<not> tokenAt (drop j s)"
          using openNo closeNone by (auto simp: tokenAt_def)
        then have "scanDepth s depth pos = scanDepth (drop ci s) depth (pos + ci)"
          using close(1) by (rule scan_skip)
        also have "\<dots> = (if depth = 1 then Some (pos + ci, cl)
                         else scanDepth (drop cl (drop ci s)) (depth - 1) (pos + ci + cl))"
          using closeAt by (rule scan_close_tag)
        also have "drop cl (drop ci s) = drop (pos + ci + cl) content"
          by (simp add: s_def add.commute add.left_commute)
        finally have sc: "scanDepth s depth pos =
            (if depth = 1 then Some (pos + ci, cl)
             else scanDepth (drop (pos + ci + cl) content) (depth - 1) (pos + ci + cl))" .
        have step: "findBlockEnd_loop tag content depth pos =
              (if depth - 1 = 0
               then (take (pos + ci) content, drop (pos + ci + cl) content)
               else findBlockEnd_loop tag content (depth - 1) (pos + ci + cl))"
          using inside "1.prems" Some openNone
          by (simp add: findBlockEnd_loop.simps [of tag content depth pos] s_def cm)
        show ?thesis
        proof (cases "depth = 1")
          case True
          with step sc show ?thesis
            by (simp add: s_def)
        next
          case False
          with "1.prems" have d: "depth - 1 \<noteq> 0" "0 < depth - 1" by auto
          have "findBlockEnd_loop tag content (depth - 1) (pos + ci + cl) =
               (case scanDepth (drop (pos + ci + cl) content) (depth - 1) (pos + ci + cl) of
                Some (p, l) \<Rightarrow> (take p content, drop (p + l) content) | None \<Rightarrow> (content, []))"
            using inside "1.prems" Some openNone d
            by (intro "1.IH"(1) [of cm ci cl]) (simp_all add: s_def cm)
          with step d show ?thesis
            using sc False by (simp add: s_def)
        qed
      qed
    qed
  qed
qed

lemma findBlockEnd_is_scan:
  "findBlockEnd content tag =
     (case scanDepth content 1 0 of
        Some (p, l) \<Rightarrow> (take p content, drop (p + l) content)
      | None \<Rightarrow> (content, []))"
  using loop_is_scan [of 1 tag content 0] by (simp add: findBlockEnd_def)

lemma scanDepth_Some:
  "scanDepth s d i = Some (p, l) \<Longrightarrow>
   i \<le> p \<and> p - i \<le> length s \<and> closingTagAt (drop (p - i) s) = Some l"
proof (induction s arbitrary: d i)
  case Nil
  then show ?case by simp
next
  case (Cons c cs)
  show ?case
  proof (cases "scanDepth (c # cs) d i = Some (i, l) \<and> p = i \<and> closingTagAt (c # cs) = Some l")
    case True
    then show ?thesis by simp
  next
    case False
    with Cons.prems obtain d' where "scanDepth cs d' (Suc i) = Some (p, l)"
      by (auto split: if_splits option.splits)
    from Cons.IH [OF this] have "Suc i \<le> p" "p - Suc i \<le> length cs"
      "closingTagAt (drop (p - Suc i) cs) = Some l"
      by auto
    moreover from this(1) have "p - i = Suc (p - Suc i)" by simp
    ultimately show ?thesis by simp
  qed
qed

lemma closingTagAt_fits: "closingTagAt s = Some l \<Longrightarrow> l \<le> length s"
  using closing_shape [of s l] by auto

text \<open>
  C3. When the depth counter, started at 1, finds the matching closing tag at position
  \<open>p\<close> with length \<open>l\<close>, the scanner returns the text before \<open>p\<close> as the body and the
  text behind the closing tag as the rest, whatever kind it is called with: the content
  is body, closing tag, rest.
\<close>

theorem findBlockEnd_matching_close:
  assumes "scanDepth content 1 0 = Some (p, l)"
  shows "findBlockEnd content tag = (take p content, drop (p + l) content) \<and>
         closingTagAt (drop p content) = Some l \<and>
         p + l \<le> length content \<and>
         content = take p content @ take l (drop p content) @ drop (p + l) content"
proof -
  from scanDepth_Some [OF assms] have c: "closingTagAt (drop p content) = Some l"
    and "p \<le> length content"
    by auto
  with closingTagAt_fits [OF c] have le: "p + l \<le> length content"
    by simp
  have "take l (drop p content) @ drop (p + l) content = drop p content"
    using append_take_drop_id [of l "drop p content"] by (simp add: add.commute)
  then have "content = take p content @ take l (drop p content) @ drop (p + l) content"
    by simp
  with c le assms show ?thesis
    by (simp add: findBlockEnd_is_scan)
qed

theorem findBlockEnd_matching_close_witness:
  "scanDepth ''a{{#if x}}b{{/if}}c{{/each}}d{{/if}}'' 1 0 = Some (19, 9) \<and>
   findBlockEnd ''a{{#if x}}b{{/if}}c{{/each}}d{{/if}}'' If = (''a{{#if x}}b{{/if}}c'', ''d{{/if}}'') \<and>
   findBlockEnd ''a{{#if x}}b{{/if}}c{{/each}}d{{/if}}'' Each = (''a{{#if x}}b{{/if}}c'', ''d{{/if}}'')"
proof -
  have s: "scanDepth ''a{{#if x}}b{{/if}}c{{/each}}d{{/if}}'' 1 0 = Some (19, 9)"
    by code_simp
  from s findBlockEnd_matching_close [OF s, of If] findBlockEnd_matching_close [OF s, of Each]
  show ?thesis by simp
qed

text \<open>
  C6. When the depth counter never comes back to zero, the scanner returns the whole
  content as the body and an empty rest. An if, unless or each tag in front of such a
  content is then rendered with the whole content as its body and nothing behind it.
\<close>

theorem findBlockEnd_unterminated:
  assumes "scanDepth content 1 0 = None"
  shows "findBlockEnd content tag = (content, []) \<and>
    (ws \<noteq> [] \<and> list_all isSpace ws \<and> p \<noteq> [] \<and> list_all isPathChar p \<and>
     resolvePath H (Obj ctx) p = Inr v \<longrightarrow>
       render H (Suc (Suc n)) (''{{#if'' @ ws @ p @ ''}}'' @ content) ctx ps =
         render H (Suc n)
           (if truthy H v then fst (splitElse content) else snd (splitElse content)) ctx ps \<and>
       render H (Suc (Suc n)) (''{{#unless'' @ ws @ p @ ''}}'' @ content) ctx ps =
         (if \<not> truthy H v then render H (Suc n) content ctx ps else emitText []) \<and>
       (\<forall>items. v = Arr items \<longrightarrow>
          render H (Suc (Suc n)) (''{{#each'' @ ws @ p @ ''}}'' @ content) ctx ps =
            joinAll (map (\<lambda>i. render H (Suc n) content (itemContext ctx items (items ! i) i) ps)
                         [0..<length items])))"
proof -
  have f: "findBlockEnd content k = (content, [])" for k
    using assms by (simp add: findBlockEnd_is_scan)
  have r: "render H (Suc (Suc n)) (''{{#if'' @ ws @ p @ ''}}'' @ content) ctx ps =
         render H (Suc n)
           (if truthy H v then fst (splitElse content) else snd (splitElse content)) ctx ps"
    "render H (Suc (Suc n)) (''{{#unless'' @ ws @ p @ ''}}'' @ content) ctx ps =
         (if \<not> truthy H v then render H (Suc n) content ctx ps else emitText [])"
    "\<forall>items. v = Arr items \<longrightarrow>
          render H (Suc (Suc n)) (''{{#each'' @ ws @ p @ ''}}'' @ content) ctx ps =
            joinAll (map (\<lambda>i. render H (Suc n) content (itemContext ctx items (items ! i) i) ps)
                         [0..<length items])"
    if h: "ws \<noteq> []" "list_all isSpace ws" "p \<noteq> []" "list_all isPathChar p"
      and v: "resolvePath H (Obj ctx) p = Inr v"
  proof -
    show "render H (Suc (Suc n)) (''{{#if'' @ ws @ p @ ''}}'' @ content) ctx ps =
         render H (Suc n)
           (if truthy H v then fst (splitElse content) else snd (splitElse content)) ctx ps"
      unfolding render_if_block [OF h] by (simp add: f v render_Nil split: prod.splits)
    show "render H (Suc (Suc n)) (''{{#unless'' @ ws @ p @ ''}}'' @ content) ctx ps =
         (if \<not> truthy H v then render H (Suc n) content ctx ps else emitText [])"
      unfolding render_unless_block [OF h] by (simp add: f v render_Nil)
    show "\<forall>items. v = Arr items \<longrightarrow>
          render H (Suc (Suc n)) (''{{#each'' @ ws @ p @ ''}}'' @ content) ctx ps =
            joinAll (map (\<lambda>i. render H (Suc n) content (itemContext ctx items (items ! i) i) ps)
                         [0..<length items])"
      unfolding render_each_block [OF h] by (simp add: f v render_Nil map_zip_index)
  qed
  from f r show ?thesis by blast
qed

theorem findBlockEnd_unterminated_witness:
  "scanDepth ''abc{{#each ys}}{{/each}}{{y'' 1 0 = None \<and>
   findBlockEnd ''abc{{#each ys}}{{/each}}{{y'' If = (''abc{{#each ys}}{{/each}}{{y'', []) \<and>
   render stdHost 5 ''{{#if x}}abc{{#each ys}}{{/each}}{{y'' [(''x'', Num 1)] Map.empty =
     Some (Inr (''abc{{y'', []))"
proof -
  have s: "scanDepth ''abc{{#each ys}}{{/each}}{{y'' 1 0 = None"
    by code_simp
  have h: "'' '' \<noteq> [] \<and> list_all isSpace '' '' \<and> ''x'' \<noteq> [] \<and> list_all isPathChar ''x'' \<and>
     resolvePath stdHost (Obj [(''x'', Num 1)]) ''x'' = Inr (Num 1)"
    by code_simp
  have sp: "splitElse ''abc{{#each ys}}{{/each}}{{y'' = (''abc{{#each ys}}{{/each}}{{y'', [])"
    by code_simp
  have r: "render stdHost 4 ''abc{{#each ys}}{{/each}}{{y'' [(''x'', Num 1)] Map.empty =
      Some (Inr (''abc{{y'', []))"
    by code_simp
  have e: "(5::nat) = Suc (Suc 3)" "(4::nat) = Suc 3" by simp_all
  from s h sp r
    findBlockEnd_unterminated [OF s, of If "'' ''" "''x''" stdHost "[(''x'', Num 1)]" "Num 1" 3 Map.empty]
  show ?thesis
    unfolding e by simp
qed

section \<open>The else marker of an if block\<close>

lemma matchClosing_closingTagAt: "matchClosing s \<longleftrightarrow> closingTagAt s \<noteq> None"
  by (auto simp: matchClosing_def closingTagAt_def)

text \<open>
  Where every \<^verbatim>\<open>{{#\<close> of the body starts an opening tag of one of the three kinds, the
  loop of the code is the loop of the specification.
\<close>

lemma elseLoop_agrees:
  "(\<And>j. j < length s \<Longrightarrow> startsWith (drop j s) ''{{#'' \<Longrightarrow> openingTagAt (drop j s)) \<Longrightarrow>
   elseLoop s d i = elseLoopSpec s d i"
proof (induction s arbitrary: d i)
  case Nil
  show ?case by simp
next
  case (Cons c cs)
  have 0: "startsWith (c # cs) ''{{#'' \<longleftrightarrow> openingTagAt (c # cs)"
    using Cons.prems [of 0] openingTagAt_prefix [of "c # cs"] by auto
  have "startsWith (drop j cs) ''{{#'' \<Longrightarrow> openingTagAt (drop j cs)" if "j < length cs" for j
    using Cons.prems [of "Suc j"] that by simp
  then have "elseLoop cs d' i' = elseLoopSpec cs d' i'" for d' i'
    by (rule Cons.IH)
  with 0 show ?case
    by (simp add: matchClosing_closingTagAt Let_def del: startsWith.simps)
qed

text \<open>
  C2. The loop of the code raises its counter at every \<^verbatim>\<open>{{#\<close>. In the body
  \<^verbatim>\<open>{{#x}}{{else}}N\<close> no block is open at the \<^verbatim>\<open>{{else}}\<close>, and the specification splits
  there; the code finds no marker, keeps the whole body as the true branch, and the
  template \<^verbatim>\<open>{{#if flag}}{{#x}}{{else}}N{{/if}}\<close> renders to the empty string under a
  false \<^verbatim>\<open>flag\<close>, where the else branch \<^verbatim>\<open>N\<close> is due.
\<close>

theorem else_split_counts_every_hash:
  "splitElse ''{{#x}}{{else}}N'' = (''{{#x}}{{else}}N'', []) \<and>
   splitElseSpec ''{{#x}}{{else}}N'' = (''{{#x}}'', ''N'') \<and>
   render H 4 ''{{#if flag}}{{#x}}{{else}}N{{/if}}'' [(''flag'', Bool False)] Map.empty
     = Some (Inr ([], []))"
  by code_simp

section \<open>The result does not depend on the fuel\<close>

lemma below_refl [simp]: "below a a"
  by (simp add: below_def)

lemma below_None [simp]: "below None b"
  by (simp add: below_def)

lemma below_andThen: "below a a' \<Longrightarrow> below b b' \<Longrightarrow> below (andThen a b) (andThen a' b')"
  by (auto simp: below_def andThen_def split: option.splits sum.splits)

lemma below_joinAll:
  "(\<And>x. x \<in> set xs \<Longrightarrow> below (f x) (g x)) \<Longrightarrow> below (joinAll (map f xs)) (joinAll (map g xs))"
  by (induction xs) (auto simp: joinAll_def intro: below_andThen)

lemma render_below: "n \<le> m \<Longrightarrow> below (render H n t ctx ps) (render H m t ctx ps)"
proof (induction n arbitrary: m t ctx)
  case 0
  show ?case by simp
next
  case (Suc n)
  then obtain m' where m: "m = Suc m'" and le: "n \<le> m'"
    by (cases m) auto
  have ih: "below (render H n t' ctx' ps) (render H m' t' ctx' ps)" for t' ctx'
    using le by (rule Suc.IH)
  note unf = render.simps(2) [of H n] render.simps(2) [of H m'] m
  show ?case
  proof (cases "t = [] \<or> indexOf t ''{{'' = None")
    case True
    then show ?thesis by (auto simp: unf)
  next
    case False
    then obtain tagIdx where t: "t \<noteq> []" "indexOf t ''{{'' = Some tagIdx" by auto
    define remaining where "remaining = drop tagIdx t"
    show ?thesis
    proof (cases "matchPartial remaining")
      case (Some found)
      with t show ?thesis
        unfolding unf
        by (auto simp: remaining_def [symmetric] split: option.splits prod.splits sum.splits jsval.splits
            intro!: below_andThen ih)
    next
      case noPartial: None
      show ?thesis
      proof (cases "matchBlock Each remaining")
        case (Some found)
        with t noPartial show ?thesis
          unfolding unf
          by (auto simp: remaining_def [symmetric] split: prod.splits sum.splits option.splits
              intro!: below_andThen below_joinAll ih)
      next
        case noEach: None
        show ?thesis
        proof (cases "matchBlock If remaining")
          case (Some found)
          with t noPartial noEach show ?thesis
            unfolding unf
            by (auto simp: remaining_def [symmetric] split: prod.splits sum.splits
                intro!: below_andThen ih)
        next
          case noIf: None
          show ?thesis
          proof (cases "matchBlock Unless remaining")
            case (Some found)
            with t noPartial noEach noIf show ?thesis
              unfolding unf
              by (auto simp: remaining_def [symmetric] split: prod.splits sum.splits
                  intro!: below_andThen ih)
          next
            case noUnless: None
            with t noPartial noEach noIf show ?thesis
              unfolding unf
              by (auto simp: remaining_def [symmetric] split: option.splits prod.splits sum.splits
                  intro!: below_andThen ih)
          qed
        qed
      qed
    qed
  qed
qed

section \<open>Termination without partials\<close>

lemma matchPartial_Nil [simp]: "matchPartial [] = None"
  by (simp add: matchPartial_def)

lemma noPartial_iff: "\<not> hasPartialTag t \<longleftrightarrow> (\<forall>i. matchPartial (drop i t) = None)"
proof
  assume n: "\<not> hasPartialTag t"
  show "\<forall>i. matchPartial (drop i t) = None"
  proof
    fix i
    show "matchPartial (drop i t) = None"
    proof (cases "i < length t")
      case True
      with n show ?thesis by (cases "matchPartial (drop i t)") (auto simp: hasPartialTag_def list_ex_iff)
    next
      case False
      then show ?thesis by simp
    qed
  qed
next
  assume "\<forall>i. matchPartial (drop i t) = None"
  then show "\<not> hasPartialTag t"
    by (simp add: hasPartialTag_def list_ex_iff)
qed

lemma startsWith_extend: "startsWith x p \<Longrightarrow> startsWith (x @ y) p"
  by (induction x p rule: startsWith.induct) auto

lemma startsWith_nonempty: "startsWith x (c # p) \<Longrightarrow> x \<noteq> []"
  by (cases x) auto

lemma dropWhile_extend: "dropWhile P x \<noteq> [] \<Longrightarrow> dropWhile P (x @ y) = dropWhile P x @ y"
  by (induction x) auto

lemma takeWhile_extend: "drop (length (takeWhile P x)) x \<noteq> [] \<Longrightarrow> takeWhile P (x @ y) = takeWhile P x"
  by (induction x) auto

lemma matchPartial_extend:
  assumes "matchPartial x = Some r"
  shows "matchPartial (x @ y) = Some r"
proof -
  define s1 where "s1 = dropWhile isSpace (drop 3 x)"
  define name where "name = takeWhile isWord s1"
  define s2 where "s2 = dropWhile isSpace (drop (length name) s1)"
  from assms have st: "startsWith x ''{{>''" and nm: "name \<noteq> []" and cl: "startsWith s2 ''}}''"
    and r: "r = (name, length x - length s2 + 2)"
    by (auto simp: matchPartial_def Let_def s1_def name_def s2_def split: if_splits)
  from cl have s2: "s2 \<noteq> []" by (rule startsWith_nonempty)
  then have d2: "drop (length name) s1 \<noteq> []"
    by (auto simp: s2_def)
  then have s1: "s1 \<noteq> []" by auto
  have len3: "3 \<le> length x"
    using st by (auto simp: startsWith_take [of x "''{{>''"] dest: arg_cong [of _ _ length])
  have e1: "dropWhile isSpace (drop 3 (x @ y)) = s1 @ y"
    using s1 len3 by (simp add: s1_def dropWhile_extend)
  have e2: "takeWhile isWord (s1 @ y) = name"
    using d2 by (simp add: name_def takeWhile_extend)
  have e3: "dropWhile isSpace (drop (length name) (s1 @ y)) = s2 @ y"
    using s2 d2 by (simp add: s2_def dropWhile_extend)
  have "length s2 \<le> length x"
    unfolding s2_def s1_def
    by (metis (no_types, lifting) dropWhile_eq_drop length_drop diff_le_self le_trans)
  then have e4: "length (x @ y) - length (s2 @ y) + 2 = length x - length s2 + 2"
    by simp
  show ?thesis
    unfolding matchPartial_def Let_def e1 e2 e3 e4
    using st nm cl r by (simp add: startsWith_extend)
qed

lemma noPartial_drop: "\<not> hasPartialTag t \<Longrightarrow> \<not> hasPartialTag (drop k t)"
  by (simp add: noPartial_iff)

lemma noPartial_take:
  assumes "\<not> hasPartialTag t"
  shows "\<not> hasPartialTag (take k t)"
proof -
  have "matchPartial (drop i (take k t)) = None" for i
  proof (rule ccontr)
    assume "matchPartial (drop i (take k t)) \<noteq> None"
    then obtain r where r: "matchPartial (drop i (take k t)) = Some r" by auto
    then have "drop i (take k t) \<noteq> []" by auto
    then have ik: "i < k" "i < length t" by auto
    have "drop i t = drop i (take k t) @ drop k t"
      using ik by (metis append_take_drop_id drop_append length_take less_imp_le_nat
          min.absorb2 drop_all append_Nil2 diff_is_0_eq drop_0 min.cobounded2 order_less_le_trans linorder_not_less)
    with matchPartial_extend [OF r, of "drop k t"] have "matchPartial (drop i t) = Some r"
      by simp
    moreover from assms have "matchPartial (drop i t) = None"
      by (simp add: noPartial_iff)
    ultimately show False by simp
  qed
  then show ?thesis by (simp add: noPartial_iff)
qed

lemma noPartial_Nil [simp]: "\<not> hasPartialTag []"
  by (simp add: hasPartialTag_def)

text \<open>What a pass consumes, and what the scanner and the else split hand on.\<close>

lemma matchBlock_consumes: "matchBlock k s = Some (p, len) \<Longrightarrow> 2 \<le> len"
  by (auto simp: matchBlock_def Let_def split: if_splits)

lemma matchVar_consumes: "matchVar s = Some (p, len) \<Longrightarrow> 2 \<le> len"
  by (auto simp: matchVar_def Let_def split: if_splits)

lemma indexOfFrom_less: "indexOfFrom s ''{{'' i = Some j \<Longrightarrow> j < i + length s"
proof (induction s arbitrary: i)
  case Nil
  then show ?case by simp
next
  case (Cons c cs)
  show ?case
  proof (cases "startsWith (c # cs) ''{{''")
    case True
    with Cons.prems show ?thesis by simp
  next
    case False
    with Cons.prems have "indexOfFrom cs ''{{'' (Suc i) = Some j" by auto
    from Cons.IH [OF this] show ?thesis by simp
  qed
qed

lemma indexOf_less: "indexOf t ''{{'' = Some j \<Longrightarrow> j < length t"
  using indexOfFrom_less [of t 0 j] by (simp add: indexOf_def)

lemma findBlockEnd_parts:
  "\<exists>a b. findBlockEnd c k = (take a c, drop b c)"
proof (cases "scanDepth c 1 0")
  case None
  then have "findBlockEnd c k = (take (length c) c, drop (length c) c)"
    by (simp add: findBlockEnd_is_scan)
  then show ?thesis by blast
next
  case (Some pl)
  then show ?thesis
    by (cases pl) (auto simp: findBlockEnd_is_scan)
qed

lemma splitElse_parts: "\<exists>a b. splitElse body = (take a body, drop b body)"
proof (cases "elseLoop body 0 0")
  case None
  then have "splitElse body = (take (length body) body, drop (length body) body)"
    by (simp add: splitElse_def)
  then show ?thesis by blast
next
  case (Some i)
  then show ?thesis
    by (auto simp: splitElse_def)
qed

lemma finishes_emitText [simp]: "finishes (emitText s)"
  by (simp add: finishes_def emitText_def)

lemma finishes_Some [simp]: "finishes (Some r)"
  by (simp add: finishes_def)

lemma finishes_emitString [simp]: "finishes (emitString H v)"
  by (simp add: finishes_def emitString_def emitText_def split: sum.splits)

lemma finishes_andThen: "finishes a \<Longrightarrow> finishes b \<Longrightarrow> finishes (andThen a b)"
  by (auto simp: finishes_def andThen_def split: option.splits sum.splits)

lemma finishes_joinAll: "(\<And>x. x \<in> set xs \<Longrightarrow> finishes (f x)) \<Longrightarrow> finishes (joinAll (map f xs))"
  by (induction xs) (auto simp: joinAll_def intro: finishes_andThen)

lemma render_finishes:
  "length t < n \<Longrightarrow> \<not> hasPartialTag t \<Longrightarrow> finishes (render H n t ctx ps)"
proof (induction n arbitrary: t ctx)
  case 0
  then show ?case by simp
next
  case (Suc n)
  define small where "small s = (length s < n \<and> \<not> hasPartialTag s)" for s
  have ih: "finishes (render H n s ctx' ps)" if "small s" for s ctx'
    using that Suc.IH [of s ctx'] by (simp add: small_def)
  have small_take: "small (take a s)" and small_drop: "small (drop b s)" if "small s" for a b s
    using that by (auto simp: small_def noPartial_take noPartial_drop)
  note unf = render.simps(2) [of H n]
  show ?case
  proof (cases "t = [] \<or> indexOf t ''{{'' = None")
    case True
    then show ?thesis by (auto simp: unf)
  next
    case False
    then obtain tagIdx where t: "t \<noteq> []" "indexOf t ''{{'' = Some tagIdx" by auto
    define remaining where "remaining = drop tagIdx t"
    have rem: "remaining \<noteq> []" "length remaining \<le> n" "\<not> hasPartialTag remaining"
      using indexOf_less [OF t(2)] Suc.prems by (auto simp: remaining_def noPartial_drop)
    have after: "small (drop len remaining)" if "0 < len" for len
    proof -
      from rem(1) have "0 < length remaining" by simp
      with that rem(2) have "length remaining - len < n" by arith
      with rem(3) show ?thesis
        by (simp add: small_def noPartial_drop)
    qed
    have noPartial: "matchPartial remaining = None"
      using rem(3) noPartial_iff [of remaining] by (metis drop_0)
    have block: "small body \<and> small rest \<and> small (fst (splitElse body)) \<and> small (snd (splitElse body))"
      if "findBlockEnd (drop len remaining) k = (body, rest)" "0 < len" for len k body rest
    proof -
      define content where "content = drop len remaining"
      have c: "small content"
        unfolding content_def using that(2) by (rule after)
      obtain a b where "findBlockEnd content k = (take a content, drop b content)"
        using findBlockEnd_parts by blast
      with that(1) have "body = take a content" "rest = drop b content"
        by (simp_all add: content_def)
      then have br: "small body" "small rest"
        using c small_take small_drop by blast+
      obtain a' b' where "splitElse body = (take a' body, drop b' body)"
        using splitElse_parts by blast
      then have "small (fst (splitElse body))" "small (snd (splitElse body))"
        using br(1) small_take small_drop by simp_all
      with br show ?thesis
        by simp
    qed
    show ?thesis
    proof (cases "matchBlock Each remaining")
      case (Some found)
      obtain path len where f: "found = (path, len)" by (cases found)
      obtain body rest where fb: "findBlockEnd (drop len remaining) Each = (body, rest)"
        by (cases "findBlockEnd (drop len remaining) Each")
      from matchBlock_consumes [OF Some [unfolded f]] have "0 < len" by simp
      from block [OF fb this] have "small body" "small rest" by auto
      then show ?thesis
        using t noPartial Some f fb unfolding unf
        by (auto simp: remaining_def [symmetric] split: option.splits sum.splits
            intro!: finishes_andThen finishes_joinAll ih)
    next
      case noEach: None
      show ?thesis
      proof (cases "matchBlock If remaining")
        case (Some found)
        obtain path len where f: "found = (path, len)" by (cases found)
        obtain body rest where fb: "findBlockEnd (drop len remaining) If = (body, rest)"
          by (cases "findBlockEnd (drop len remaining) If")
        obtain ifBody elseBody where sp: "splitElse body = (ifBody, elseBody)"
          by (cases "splitElse body")
        from matchBlock_consumes [OF Some [unfolded f]] have "0 < len" by simp
        from block [OF fb this] sp have "small ifBody" "small elseBody" "small rest" by auto
        then show ?thesis
          using t noPartial noEach Some f fb sp unfolding unf
          by (auto simp: remaining_def [symmetric] split: sum.splits intro!: finishes_andThen ih)
      next
        case noIf: None
        show ?thesis
        proof (cases "matchBlock Unless remaining")
          case (Some found)
          obtain path len where f: "found = (path, len)" by (cases found)
          obtain body rest where fb: "findBlockEnd (drop len remaining) Unless = (body, rest)"
            by (cases "findBlockEnd (drop len remaining) Unless")
          from matchBlock_consumes [OF Some [unfolded f]] have "0 < len" by simp
          from block [OF fb this] have "small body" "small rest" by auto
          then show ?thesis
            using t noPartial noEach noIf Some f fb unfolding unf
            by (auto simp: remaining_def [symmetric] split: sum.splits intro!: finishes_andThen ih)
        next
          case noUnless: None
          show ?thesis
          proof (cases "matchVar remaining")
            case (Some found)
            obtain path len where f: "found = (path, len)" by (cases found)
            from matchVar_consumes [OF Some [unfolded f]] have "0 < len" by simp
            from after [OF this] show ?thesis
              using t noPartial noEach noIf noUnless Some f unfolding unf
              by (auto simp: remaining_def [symmetric] split: sum.splits intro!: finishes_andThen ih)
          next
            case None
            from after [of 2] show ?thesis
              using t noPartial noEach noIf noUnless None unfolding unf
              by (auto simp: remaining_def [symmetric] intro!: finishes_andThen ih)
          qed
        qed
      qed
    qed
  qed
qed

lemma findBlockEnd_lengths:
  "length (fst (findBlockEnd c k)) \<le> length c \<and> length (snd (findBlockEnd c k)) \<le> length c"
proof -
  obtain a b where "findBlockEnd c k = (take a c, drop b c)"
    using findBlockEnd_parts by blast
  then show ?thesis by simp
qed

lemma splitElse_lengths:
  "length (fst (splitElse b)) \<le> length b \<and> length (snd (splitElse b)) \<le> length b"
proof -
  obtain a' b' where "splitElse b = (take a' b, drop b' b)"
    using splitElse_parts by blast
  then show ?thesis by simp
qed

text \<open>
  C10. A template without partial tags is rendered to its end, under every context and
  registry, with any fuel above its length: the call returns a string or raises what a
  property read or a conversion to a string raised, and it does not run on. Each pass of
  the loop that goes on consumes a tag of at least two characters, and the body of a
  block, its branches and the text behind it are pieces of the text behind the opening
  tag, so no call sees a text as long as the one its caller was left with.
\<close>

theorem render_terminates_without_partials:
  assumes "\<not> hasPartialTag t"
  shows "(length t < n \<longrightarrow> (\<exists>r. render H n t ctx ps = Some r)) \<and>
         (matchBlock k s = Some (p, len) \<longrightarrow> 2 \<le> len) \<and>
         (matchVar s = Some (p, len) \<longrightarrow> 2 \<le> len) \<and>
         length (fst (findBlockEnd c k)) \<le> length c \<and>
         length (snd (findBlockEnd c k)) \<le> length c \<and>
         length (fst (splitElse b)) \<le> length b \<and>
         length (snd (splitElse b)) \<le> length b"
proof -
  have "\<exists>r. render H n t ctx ps = Some r" if "length t < n"
    using render_finishes [OF that assms, of H ctx ps]
    by (auto simp: finishes_def)
  then show ?thesis
    using matchBlock_consumes [of k s p len] matchVar_consumes [of s p len]
      findBlockEnd_lengths [of c k] splitElse_lengths [of b]
    by blast
qed

theorem render_terminates_without_partials_witness:
  "\<not> hasPartialTag ''{{#each xs}}{{#if this}}x{{else}}y{{/if}}{{/each}}{{'' \<and>
   (\<exists>r.
      render stdHost (Suc (length ''{{#each xs}}{{#if this}}x{{else}}y{{/if}}{{/each}}{{''))
        ''{{#each xs}}{{#if this}}x{{else}}y{{/if}}{{/each}}{{''
        [(''xs'', Arr [Num 1, Num 0])] Map.empty = Some r) \<and>
   render stdHost 6 ''{{#each xs}}{{#if this}}x{{else}}y{{/if}}{{/each}}{{''
        [(''xs'', Arr [Num 1, Num 0])] Map.empty = Some (Inr (''xy{{'', [])) \<and>
   \<not> hasPartialTag ''{{constructor.caller}}'' \<and>
   (\<exists>r. render stdHost (Suc (length ''{{constructor.caller}}'')) ''{{constructor.caller}}''
        [] Map.empty = Some r) \<and>
   render stdHost 2 ''{{constructor.caller}}'' [] Map.empty = Some (Inl TypeError)"
proof -
  have a: "\<not> hasPartialTag ''{{#each xs}}{{#if this}}x{{else}}y{{/if}}{{/each}}{{''"
    by code_simp
  have b: "render stdHost 6 ''{{#each xs}}{{#if this}}x{{else}}y{{/if}}{{/each}}{{''
        [(''xs'', Arr [Num 1, Num 0])] Map.empty = Some (Inr (''xy{{'', []))"
    by code_simp
  have c: "\<not> hasPartialTag ''{{constructor.caller}}''"
    by code_simp
  have d: "render stdHost 2 ''{{constructor.caller}}'' [] Map.empty = Some (Inl TypeError)"
    by code_simp
  from a b c d
    render_terminates_without_partials [OF a,
      of "Suc (length ''{{#each xs}}{{#if this}}x{{else}}y{{/if}}{{/each}}{{'')" stdHost
      "[(''xs'', Arr [Num 1, Num 0])]" Map.empty]
    render_terminates_without_partials [OF c,
      of "Suc (length ''{{constructor.caller}}'')" stdHost "[]" Map.empty]
  show ?thesis by (simp del: render.simps)
qed

section \<open>The store and the values it stands for\<close>

lemma grown_iff: "grown h h' \<longleftrightarrow> (\<exists>new. h' = new @ h)"
proof
  assume g: "grown h h'"
  then have "h' = take (length h' - length h) h' @ h"
    using append_take_drop_id [of "length h' - length h" h'] by (simp add: grown_def)
  then show "\<exists>new. h' = new @ h" ..
next
  assume "\<exists>new. h' = new @ h"
  then show "grown h h'" by (auto simp: grown_def)
qed

lemma grown_refl [simp]: "grown h h"
  by (simp add: grown_def)

lemma grown_trans: "grown h h1 \<Longrightarrow> grown h1 h2 \<Longrightarrow> grown h h2"
  by (auto simp: grown_iff)

lemma grown_Cons [simp]: "grown h (c # h)"
  unfolding grown_iff by (rule exI [of _ "[c]"]) simp

lemma grown_length: "grown h h' \<Longrightarrow> length h \<le> length h'"
  by (simp add: grown_def)

lemma validVal_mono: "validVal n v \<Longrightarrow> n \<le> m \<Longrightarrow> validVal m v"
  by (cases v) auto

lemma cellAt_less: "cellAt h a = Some c \<Longrightarrow> a < length h"
  by (induction h) (auto split: if_splits)

lemma cellAt_append: "a < length h \<Longrightarrow> cellAt (new @ h) a = cellAt h a"
  by (induction new) auto

lemma cellAt_grown: "grown h h' \<Longrightarrow> a < length h \<Longrightarrow> cellAt h' a = cellAt h a"
  by (auto simp: grown_iff cellAt_append)

lemma decode_append: "validVal (length h) v \<Longrightarrow> decode (new @ h) v = decode h v"
  by (induction new) (cases v; auto)+

lemma decode_grown: "grown h h' \<Longrightarrow> validVal (length h) v \<Longrightarrow> decode h' v = decode h v"
  by (auto simp: grown_iff decode_append)

lemma decode_Cons: "validVal (length h) v \<Longrightarrow> decode (c # h) v = decode h v"
  using decode_append [of h v "[c]"] by simp

lemma wfStore_cell:
  "wfStore h \<Longrightarrow> cellAt h a = Some c \<Longrightarrow> list_all (validVal a) (cellVals c)"
  by (induction h) (auto split: if_splits)

lemma wfStore_cell_valid:
  assumes "wfStore h" "cellAt h a = Some c" "v \<in> set (cellVals c)"
  shows "validVal (length h) v"
proof -
  from wfStore_cell [OF assms(1,2)] assms(3) have "validVal a v"
    by (simp add: list_all_iff)
  with cellAt_less [OF assms(2)] show ?thesis
    by (auto intro: validVal_mono)
qed

lemma cellAt_Some: "a < length h \<Longrightarrow> \<exists>c. cellAt h a = Some c"
  by (induction h) auto

lemma decode_map_Cons:
  "list_all (validVal (length h)) xs \<Longrightarrow> map (decode (c # h)) xs = map (decode h) xs"
  by (induction xs) (simp_all add: decode_Cons del: decode.simps)

lemma decode_kvs_Cons:
  "list_all (validVal (length h)) (map snd kvs) \<Longrightarrow>
   map (\<lambda>kv. (fst kv, decode (c # h) (snd kv))) kvs = map (\<lambda>kv. (fst kv, decode h (snd kv))) kvs"
  by (induction kvs) (simp_all add: decode_Cons del: decode.simps)

lemma decode_ref:
  "wfStore h \<Longrightarrow> cellAt h a = Some c \<Longrightarrow>
   decode h (HRef a) =
     (case c of
        CArr xs \<Rightarrow> Arr (map (decode h) xs)
      | CObj kvs \<Rightarrow> Obj (map (\<lambda>kv. (fst kv, decode h (snd kv))) kvs))"
proof (induction h)
  case Nil
  then show ?case by simp
next
  case (Cons d older)
  have inner: "decode (d # older) (HRef a) =
     (case c of
        CArr xs \<Rightarrow> Arr (map (decode older) xs)
      | CObj kvs \<Rightarrow> Obj (map (\<lambda>kv. (fst kv, decode older (snd kv))) kvs))"
    and v: "list_all (validVal (length older)) (cellVals c)"
  proof -
    show "decode (d # older) (HRef a) =
     (case c of
        CArr xs \<Rightarrow> Arr (map (decode older) xs)
      | CObj kvs \<Rightarrow> Obj (map (\<lambda>kv. (fst kv, decode older (snd kv))) kvs))"
    proof (cases "a = length older")
      case True
      with Cons.prems show ?thesis by auto
    next
      case False
      with Cons.prems have "cellAt older a = Some c" "wfStore older" by auto
      with False Cons.IH show ?thesis by simp
    qed
    show "list_all (validVal (length older)) (cellVals c)"
    proof (cases "a = length older")
      case True
      with Cons.prems show ?thesis by auto
    next
      case False
      with Cons.prems have at: "cellAt older a = Some c" and wf: "wfStore older" by auto
      show ?thesis
        using wfStore_cell_valid [OF wf at] by (simp add: list_all_iff)
    qed
  qed
  show ?case
  proof (cases c)
    case (CArr xs)
    with v have "map (decode (d # older)) xs = map (decode older) xs"
      by (simp add: decode_map_Cons)
    then show ?thesis
      unfolding inner CArr by (simp only: cell.case)
  next
    case (CObj kvs)
    with v have "map (\<lambda>kv. (fst kv, decode (d # older) (snd kv))) kvs =
                 map (\<lambda>kv. (fst kv, decode older (snd kv))) kvs"
      by (simp add: decode_kvs_Cons)
    then show ?thesis
      unfolding inner CObj by (simp only: cell.case)
  qed
qed

lemma decode_valid_shape:
  assumes "wfStore h" "validVal (length h) v"
  shows "(decode h v = Undefined \<longleftrightarrow> v = HUndefined) \<and> (decode h v = Null \<longleftrightarrow> v = HNull) \<and>
         (\<forall>s. decode h v = Str s \<longleftrightarrow> v = HStr s)"
proof (cases v)
  case (HRef a)
  with assms(2) have "a < length h" by simp
  then obtain c where c: "cellAt h a = Some c"
    using cellAt_Some by blast
  show ?thesis
    unfolding HRef decode_ref [OF assms(1) c] by (cases c) auto
qed auto

lemma ofAtom_decode [simp]: "decode h (hvalOfAtom a) = ofAtom a"
  by (cases a) auto

lemma validVal_atom [simp]: "validVal n (hvalOfAtom a)"
  by (cases a) auto

lemma viaChainS_sim: "map_sum id (decode h) (viaChainS H c key) = viaChain H c key"
  by (auto simp: viaChainS_def viaChain_def split: option.splits sum.splits)

lemma viaChainS_valid: "viaChainS H c key = Inr w \<Longrightarrow> validVal n w"
  by (auto simp: viaChainS_def split: option.splits sum.splits)

lemma map_of_decode:
  "map_of (map (\<lambda>kv. (fst kv, f (snd kv))) kvs) key = map_option f (map_of kvs key)"
  by (induction kvs) auto

lemma getPropS_sim:
  assumes "wfStore h" "validVal (length h) v"
  shows "map_sum id (decode h) (getPropS H h v key) = getProp H (decode h v) key"
proof (cases v)
  case (HRef a)
  with assms(2) have "a < length h" by simp
  then obtain c where c: "cellAt h a = Some c"
    using cellAt_Some by blast
  show ?thesis
    unfolding HRef decode_ref [OF assms(1) c] using c
    by (cases c) (auto simp: viaChainS_sim map_of_decode split: option.splits)
qed (auto simp: viaChainS_sim split: option.splits)

lemma getPropS_valid:
  assumes "wfStore h" "validVal (length h) v" "getPropS H h v key = Inr w"
  shows "validVal (length h) w"
proof (cases v)
  case (HRef a)
  with assms(2) have "a < length h" by simp
  then obtain c where c: "cellAt h a = Some c"
    using cellAt_Some by blast
  have in_cell: "validVal (length h) x" if "x \<in> set (cellVals c)" for x
    using wfStore_cell_valid [OF assms(1) c that] .
  show ?thesis
  proof (cases c)
    case (CArr xs)
    with assms(3) HRef c in_cell show ?thesis
      by (auto split: if_splits option.splits dest: viaChainS_valid)
  next
    case (CObj kvs)
    show ?thesis
    proof (cases "map_of kvs key")
      case None
      with assms(3) HRef c CObj show ?thesis
        by (auto dest: viaChainS_valid)
    next
      case (Some x)
      with assms(3) HRef c CObj have "w = x" by simp
      with Some have "(key, w) \<in> set kvs" by (auto dest: map_of_SomeD)
      then have "w \<in> set (cellVals c)"
        unfolding CObj by (auto simp: image_iff intro: bexI [of _ "(key, w)"])
      then show ?thesis by (rule in_cell)
    qed
  qed
qed (insert assms(3), auto split: if_splits option.splits dest: viaChainS_valid)

lemma resolveStepS_sim:
  assumes "wfStore h" "validVal (length h) v"
  shows "map_sum id (decode h) (resolveStepS H h v key) = resolveStep H (decode h v) key"
  using decode_valid_shape [OF assms] getPropS_sim [OF assms, of H key]
  by (auto simp: resolveStepS_def resolveStep_def)

lemma resolveStepS_valid:
  assumes "wfStore h" "validVal (length h) v" "resolveStepS H h v key = Inr w"
  shows "validVal (length h) w"
  using assms getPropS_valid [OF assms(1,2), of H key w]
  by (auto simp: resolveStepS_def split: if_splits)

lemma reduceS_sim:
  assumes "wfStore h"
  shows "validVal (length h) v \<Longrightarrow>
    (case reduce (resolveStepS H h) v keys of
       Inl e \<Rightarrow> reduce (resolveStep H) (decode h v) keys = Inl e
     | Inr w \<Rightarrow> reduce (resolveStep H) (decode h v) keys = Inr (decode h w) \<and>
                validVal (length h) w)"
proof (induction keys arbitrary: v)
  case Nil
  then show ?case by simp
next
  case (Cons k ks)
  show ?case
  proof (cases "resolveStepS H h v k")
    case (Inl e)
    with resolveStepS_sim [OF assms Cons.prems, of H k] have "resolveStep H (decode h v) k = Inl e"
      by simp
    with Inl show ?thesis by simp
  next
    case (Inr w)
    with resolveStepS_sim [OF assms Cons.prems, of H k]
    have p: "resolveStep H (decode h v) k = Inr (decode h w)"
      by simp
    have "validVal (length h) w"
      using resolveStepS_valid [OF assms Cons.prems Inr] .
    from Cons.IH [OF this] Inr p show ?thesis by (auto split: sum.splits)
  qed
qed

lemma resolvePathS_sim:
  assumes "wfStore h" "validVal (length h) v"
  shows "case resolvePathS H h v p of
       Inl e \<Rightarrow> resolvePath H (decode h v) p = Inl e
     | Inr w \<Rightarrow> resolvePath H (decode h v) p = Inr (decode h w) \<and> validVal (length h) w"
  unfolding resolvePathS_def resolvePath_def using reduceS_sim [OF assms] .

lemma truthyS_sim:
  assumes "wfStore h" "validVal (length h) v"
  shows "truthyS H v = truthy H (decode h v)"
proof (cases v)
  case (HRef a)
  with assms(2) have "a < length h" by simp
  then obtain c where c: "cellAt h a = Some c"
    using cellAt_Some by blast
  show ?thesis
    unfolding HRef decode_ref [OF assms(1) c] by (cases c) auto
qed auto

lemma elementsOfS_sim:
  assumes "wfStore h" "validVal (length h) v"
  shows "case elementsOfS H h v of
       None \<Rightarrow> elementsOf H (decode h v) = None
     | Some items \<Rightarrow> elementsOf H (decode h v) = Some (map (decode h) items) \<and>
                     list_all (validVal (length h)) items"
proof (cases v)
  case (HRef a)
  with assms(2) have "a < length h" by simp
  then obtain c where c: "cellAt h a = Some c"
    using cellAt_Some by blast
  have "list_all (validVal (length h)) (cellVals c)"
    using wfStore_cell_valid [OF assms(1) c] by (simp add: list_all_iff)
  then show ?thesis
    unfolding HRef decode_ref [OF assms(1) c] using c by (cases c) auto
next
  case (HHost x)
  then show ?thesis
    by (cases "hostElements H x") (auto simp: list_all_iff comp_def)
qed auto

section \<open>The renderer on the store against the renderer on values\<close>

declare renderS.simps(2) [simp del]

lemma simulates_give [simp]: "wfStore h \<Longrightarrow> simulates h (give r) r"
  by (simp add: simulates_def give_def)

lemma simulates_seqS:
  assumes a: "simulates h a ra"
    and b: "\<And>h1. grown h h1 \<Longrightarrow> wfStore h1 \<Longrightarrow> simulates h1 b rb"
  shows "simulates h (seqS a b) (andThen ra rb)"
proof -
  obtain r1 h1 where ah: "a h = (r1, h1)" by (cases "a h")
  with a have r1: "r1 = ra" and g1: "grown h h1" and w1: "wfStore h1"
    by (simp_all add: simulates_def)
  show ?thesis
  proof (cases "\<exists>x. r1 = Some (Inr x)")
    case True
    then obtain x where x: "r1 = Some (Inr x)" by blast
    obtain r2 h2 where bh: "b h1 = (r2, h2)" by (cases "b h1")
    with b [OF g1 w1] have "r2 = rb" "grown h1 h2" "wfStore h2"
      by (simp_all add: simulates_def)
    with ah bh x r1 g1 show ?thesis
      by (auto simp: simulates_def seqS_def intro: grown_trans)
  next
    case False
    then have "seqS a b h = (r1, h1)"
      using ah by (auto simp: seqS_def split: option.splits sum.splits)
    moreover from False have "andThen r1 rb = r1"
      by (auto simp: andThen_def split: option.splits sum.splits)
    ultimately show ?thesis
      using r1 g1 w1 by (simp add: simulates_def)
  qed
qed

lemma simulates_forEachS:
  assumes "\<And>x h1. x \<in> set xs \<Longrightarrow> grown h h1 \<Longrightarrow> wfStore h1 \<Longrightarrow> simulates h1 (f x) (g x)"
    and "wfStore h"
  shows "simulates h (forEachS f xs) (joinAll (map g xs))"
  using assms
proof (induction xs arbitrary: h)
  case Nil
  then show ?case by (simp add: simulates_def joinAll_def)
next
  case (Cons x xs)
  have "simulates h (seqS (f x) (forEachS f xs)) (andThen (g x) (joinAll (map g xs)))"
  proof (rule simulates_seqS)
    show "simulates h (f x) (g x)"
      using Cons.prems(1) [of x h] Cons.prems(2) by simp
    show "simulates h1 (forEachS f xs) (joinAll (map g xs))" if "grown h h1" "wfStore h1" for h1
    proof (rule Cons.IH)
      show "simulates h2 (f y) (g y)" if "y \<in> set xs" "grown h1 h2" "wfStore h2" for y h2
        using Cons.prems(1) [of y h2] that \<open>grown h h1\<close> by (auto intro: grown_trans)
      show "wfStore h1" by fact
    qed
  qed
  then show ?case
    by (simp add: simulates_def joinAll_def)
qed

lemma contextAt_grown:
  assumes "contextAt h ctx = Some kvs" "grown h h1"
  shows "contextAt h1 ctx = Some kvs"
proof -
  from assms(1) obtain c where c: "ctx = HRef c" "cellAt h c = Some (CObj kvs)"
    by (auto simp: contextAt_def split: hval.splits option.splits cell.splits)
  from cellAt_grown [OF assms(2) cellAt_less [OF c(2)]] c show ?thesis
    by (simp add: contextAt_def)
qed

lemma registryAt_grown:
  assumes "registryAt h ps = Some kvs" "grown h h1"
  shows "registryAt h1 ps = Some kvs"
proof -
  from assms(1) obtain p where p: "ps = HRef p" "cellAt h p = Some (CObj kvs)"
    "list_all isText (map snd kvs)"
    by (auto simp: registryAt_def split: hval.splits option.splits cell.splits if_splits)
  from cellAt_grown [OF assms(2) cellAt_less [OF p(2)]] p show ?thesis
    by (simp add: registryAt_def)
qed

lemma contextAt_valid:
  assumes "wfStore h" "contextAt h ctx = Some kvs"
  shows "validVal (length h) ctx \<and> list_all (validVal (length h)) (map snd kvs) \<and>
         decode h ctx = Obj (decodeProps h kvs) \<and> ownProps h ctx = kvs"
proof -
  from assms(2) obtain c where c: "ctx = HRef c" "cellAt h c = Some (CObj kvs)"
    by (auto simp: contextAt_def split: hval.splits option.splits cell.splits)
  have "list_all (validVal (length h)) (cellVals (CObj kvs))"
    using wfStore_cell_valid [OF assms(1) c(2)] by (simp add: list_all_iff)
  then show ?thesis
    using c cellAt_less [OF c(2)] decode_ref [OF assms(1) c(2)]
    by (simp add: decodeProps_def ownProps_def)
qed

lemma decodeProps_grown:
  assumes "grown h h1" "list_all (validVal (length h)) (map snd kvs)"
  shows "decodeProps h1 kvs = decodeProps h kvs"
  using assms(2) decode_grown [OF assms(1)]
  by (induction kvs) (simp_all add: decodeProps_def del: decode.simps)

lemma stands_grown:
  assumes "stands h ctx ps ctxp reg" "grown h h1" "wfStore h1"
  shows "stands h1 ctx ps ctxp reg"
proof -
  from assms(1) obtain kvs pkvs where wf: "wfStore h"
    and c: "contextAt h ctx = Some kvs" "decodeProps h kvs = ctxp"
    and p: "registryAt h ps = Some pkvs" "textsOf pkvs = reg"
    by (auto simp: stands_def)
  from contextAt_valid [OF wf c(1)] have "decodeProps h1 kvs = ctxp"
    using decodeProps_grown [OF assms(2)] c(2) by simp
  with contextAt_grown [OF c(1) assms(2)] registryAt_grown [OF p(1) assms(2)] p(2) assms(3)
  show ?thesis
    by (simp add: stands_def)
qed

lemma lookupPartial_sim:
  assumes "wfStore h" "registryAt h ps = Some pkvs"
  shows "case getPropS H h ps name of
       Inl e \<Rightarrow> lookupPartial H (textsOf pkvs) name = Inl e
     | Inr w \<Rightarrow> lookupPartial H (textsOf pkvs) name = Inr (decode h w) \<and>
                validVal (length h) w"
proof -
  from assms(2) obtain p where p: "ps = HRef p" "cellAt h p = Some (CObj pkvs)"
    "list_all isText (map snd pkvs)"
    by (auto simp: registryAt_def split: hval.splits option.splits cell.splits if_splits)
  show ?thesis
  proof (cases "map_of pkvs name")
    case None
    have "map_sum id (decode h) (viaChainS H OfObject name) = viaChain H OfObject name"
      by (rule viaChainS_sim)
    with None p show ?thesis
      by (cases "viaChainS H OfObject name")
         (auto simp: lookupPartial_def textsOf_def dest: viaChainS_valid)
  next
    case (Some w)
    then have "w \<in> set (map snd pkvs)"
      by (auto dest!: map_of_SomeD simp: image_iff intro: bexI [of _ "(name, w)"])
    with p(3) have "isText w" by (auto simp: list_all_iff)
    then obtain str where "w = HStr str" by (cases w) auto
    with Some p show ?thesis
      by (simp add: lookupPartial_def textsOf_def)
  qed
qed

lemma decodeProps_update:
  "decodeProps h (AList.update k v kvs) = AList.update k (decode h v) (decodeProps h kvs)"
  by (induction kvs) (auto simp: decodeProps_def simp del: decode.simps)

lemma update_values:
  "P v \<Longrightarrow> list_all P (map snd kvs) \<Longrightarrow> list_all P (map snd (AList.update k v kvs))"
  by (induction kvs) auto

lemma itemContextS_sim:
  assumes wf: "wfStore h" and ctx: "contextAt h ctx = Some kvs"
    and items: "list_all (validVal (length h)) items" and item: "validVal (length h) item"
    and reg: "registryAt h ps = Some pkvs"
  shows "stands (itemContextS (ownProps h ctx) items item index # h) (HRef (length h)) ps
           (itemContext (decodeProps h kvs) (map (decode h) items) (decode h item) index)
           (textsOf pkvs)"
proof -
  from contextAt_valid [OF wf ctx] have kv: "list_all (validVal (length h)) (map snd kvs)"
    and own: "ownProps h ctx = kvs"
    by simp_all
  define new where "new =
     AList.update ''@last'' (HBool (int index = int (length items) - 1))
       (AList.update ''@first'' (HBool (index = 0))
         (AList.update ''@index'' (HNum (int index))
           (AList.update ''this'' item kvs)))"
  have cell: "itemContextS (ownProps h ctx) items item index = CObj new"
    by (simp add: itemContextS_def own new_def)
  have valid: "list_all (validVal (length h)) (map snd new)"
    unfolding new_def using kv item by (intro update_values) simp_all
  then have wf': "wfStore (CObj new # h)"
    using wf by simp
  have at: "contextAt (CObj new # h) (HRef (length h)) = Some new"
    by (simp add: contextAt_def)
  have "decodeProps (CObj new # h) new = decodeProps h new"
    using decode_kvs_Cons [OF valid] by (simp add: decodeProps_def)
  also have "\<dots> = itemContext (decodeProps h kvs) (map (decode h) items) (decode h item) index"
    by (simp add: new_def itemContext_def decodeProps_update)
  finally have dec: "decodeProps (CObj new # h) new =
     itemContext (decodeProps h kvs) (map (decode h) items) (decode h item) index" .
  have "registryAt (CObj new # h) ps = Some pkvs"
    using registryAt_grown [OF reg, of "CObj new # h"] by simp
  with wf' at dec show ?thesis
    unfolding cell by (simp add: stands_def)
qed

lemma zip_map_index:
  "map (\<lambda>(item, index). f item index) (zip (map d items) [0..<length items]) =
   map (\<lambda>(item, index). f (d item) index) (zip items [0..<length items])"
  by (simp add: zip_map1 case_prod_unfold)

lemma renderS_simulates:
  "stands h ctx ps ctxp reg \<Longrightarrow> simulates h (renderS H n t ctx ps) (render H n t ctxp reg)"
proof (induction n arbitrary: t ctx ctxp h)
  case 0
  then show ?case by (simp add: stands_def)
next
  case (Suc n)
  note ih = Suc.IH
  from Suc.prems have wf: "wfStore h" by (simp add: stands_def)
  note unf = renderS.simps(2) [of H n] render.simps(2) [of H n]
  show ?case
  proof (cases "t = [] \<or> indexOf t ''{{'' = None")
    case True
    with wf show ?thesis by (auto simp: unf)
  next
    case False
    then obtain tagIdx where t: "t \<noteq> []" "indexOf t ''{{'' = Some tagIdx" by auto
    define remaining where "remaining = drop tagIdx t"
    have rest: "simulates h1 (renderS H n t' ctx ps) (render H n t' ctxp reg)"
      if "grown h h1" "wfStore h1" for h1 t'
      using ih [OF stands_grown [OF Suc.prems that]] .
    have tail: "simulates h1 body bodyp"
      if g: "grown h h1" and w1: "wfStore h1"
        and body: "body = (case matchPartial remaining of
              Some (name, len) \<Rightarrow>
                (\<lambda>h. case getPropS H h ps name of
                   Inl e \<Rightarrow> (Some (Inl e), h)
                 | Inr partial \<Rightarrow>
                     seqS
                       (if \<not> truthyS H partial then give (warnMissing name)
                        else case partial of
                               HStr text \<Rightarrow> renderS H n text ctx ps
                             | _ \<Rightarrow> (\<lambda>h. case nonStringTemplate H (decode h partial) of
                                       Inl e \<Rightarrow> (Some (Inl e), h)
                                     | Inr out \<Rightarrow> (emitText out, h)))
                       (renderS H n (drop len remaining) ctx ps) h)
            | None \<Rightarrow>
            (case matchBlock Each remaining of
              Some (path, len) \<Rightarrow>
                (case findBlockEnd (drop len remaining) Each of (body, rest) \<Rightarrow>
                 (\<lambda>h. case resolvePathS H h ctx path of
                    Inl e \<Rightarrow> (Some (Inl e), h)
                  | Inr arr \<Rightarrow>
                      seqS
                        (case elementsOfS H h arr of
                           Some items \<Rightarrow>
                             forEachS (\<lambda>(item, index) h.
                                 case alloc (itemContextS (ownProps h ctx) items item index) h of
                                   (itemCtx, h1) \<Rightarrow> renderS H n body itemCtx ps h1)
                               (zip items [0..<length items])
                         | None \<Rightarrow> give (emitText []))
                        (renderS H n rest ctx ps) h))
            | None \<Rightarrow>
            (case matchBlock If remaining of
              Some (path, len) \<Rightarrow>
                (case findBlockEnd (drop len remaining) If of (body, rest) \<Rightarrow>
                 (\<lambda>h. case resolvePathS H h ctx path of
                    Inl e \<Rightarrow> (Some (Inl e), h)
                  | Inr val \<Rightarrow>
                      (case splitElse body of (ifBody, elseBody) \<Rightarrow>
                        seqS
                          (renderS H n (if truthyS H val then ifBody else elseBody) ctx ps)
                          (renderS H n rest ctx ps) h)))
            | None \<Rightarrow>
            (case matchBlock Unless remaining of
              Some (path, len) \<Rightarrow>
                (case findBlockEnd (drop len remaining) Unless of (body, rest) \<Rightarrow>
                 (\<lambda>h. case resolvePathS H h ctx path of
                    Inl e \<Rightarrow> (Some (Inl e), h)
                  | Inr val \<Rightarrow>
                      seqS
                        (if \<not> truthyS H val then renderS H n body ctx ps
                         else give (emitText []))
                        (renderS H n rest ctx ps) h))
            | None \<Rightarrow>
            (case matchVar remaining of
              Some (path, len) \<Rightarrow>
                (\<lambda>h. case resolvePathS H h ctx path of
                   Inl e \<Rightarrow> (Some (Inl e), h)
                 | Inr val \<Rightarrow>
                     seqS
                       (if val \<noteq> HUndefined \<and> val \<noteq> HNull then give (emitStringS H h val)
                        else give (emitText []))
                       (renderS H n (drop len remaining) ctx ps) h)
            | None \<Rightarrow>
                seqS (give (emitText ''{{'')) (renderS H n (drop 2 remaining) ctx ps))))))"
        and bodyp: "bodyp = (case matchPartial remaining of
              Some (name, len) \<Rightarrow>
                (case lookupPartial H reg name of
                   Inl e \<Rightarrow> Some (Inl e)
                 | Inr partial \<Rightarrow>
                     andThen
                       (if \<not> truthy H partial then warnMissing name
                        else case partial of
                               Str text \<Rightarrow> render H n text ctxp reg
                             | _ \<Rightarrow> (case nonStringTemplate H partial of
                                       Inl e \<Rightarrow> Some (Inl e)
                                     | Inr out \<Rightarrow> emitText out))
                       (render H n (drop len remaining) ctxp reg))
            | None \<Rightarrow>
            (case matchBlock Each remaining of
              Some (path, len) \<Rightarrow>
                (case findBlockEnd (drop len remaining) Each of (body, rest) \<Rightarrow>
                 (case resolvePath H (Obj ctxp) path of
                    Inl e \<Rightarrow> Some (Inl e)
                  | Inr arr \<Rightarrow>
                      andThen
                        (case elementsOf H arr of
                           Some items \<Rightarrow>
                             joinAll (map (\<lambda>(item, index).
                                        render H n body (itemContext ctxp items item index) reg)
                                      (zip items [0..<length items]))
                         | None \<Rightarrow> emitText [])
                        (render H n rest ctxp reg)))
            | None \<Rightarrow>
            (case matchBlock If remaining of
              Some (path, len) \<Rightarrow>
                (case findBlockEnd (drop len remaining) If of (body, rest) \<Rightarrow>
                 (case resolvePath H (Obj ctxp) path of
                    Inl e \<Rightarrow> Some (Inl e)
                  | Inr val \<Rightarrow>
                      (case splitElse body of (ifBody, elseBody) \<Rightarrow>
                        andThen
                          (render H n (if truthy H val then ifBody else elseBody) ctxp reg)
                          (render H n rest ctxp reg))))
            | None \<Rightarrow>
            (case matchBlock Unless remaining of
              Some (path, len) \<Rightarrow>
                (case findBlockEnd (drop len remaining) Unless of (body, rest) \<Rightarrow>
                 (case resolvePath H (Obj ctxp) path of
                    Inl e \<Rightarrow> Some (Inl e)
                  | Inr val \<Rightarrow>
                      andThen
                        (if \<not> truthy H val then render H n body ctxp reg else emitText [])
                        (render H n rest ctxp reg)))
            | None \<Rightarrow>
            (case matchVar remaining of
              Some (path, len) \<Rightarrow>
                (case resolvePath H (Obj ctxp) path of
                   Inl e \<Rightarrow> Some (Inl e)
                 | Inr val \<Rightarrow>
                     andThen
                       (if val \<noteq> Undefined \<and> val \<noteq> Null then emitString H val
                        else emitText [])
                       (render H n (drop len remaining) ctxp reg))
            | None \<Rightarrow>
                andThen (emitText ''{{'') (render H n (drop 2 remaining) ctxp reg))))))"
      for h1 body bodyp
    proof -
      have st: "stands h1 ctx ps ctxp reg"
        using stands_grown [OF Suc.prems g w1] .
      then obtain kvs pkvs where c: "contextAt h1 ctx = Some kvs" "decodeProps h1 kvs = ctxp"
        and p: "registryAt h1 ps = Some pkvs" "textsOf pkvs = reg"
        by (auto simp: stands_def)
      from contextAt_valid [OF w1 c(1)] c(2) have cv: "validVal (length h1) ctx"
        and cd: "decode h1 ctx = Obj ctxp"
        by simp_all
      have next1: "simulates h2 (renderS H n t' ctx ps) (render H n t' ctxp reg)"
        if "grown h1 h2" "wfStore h2" for h2 t'
        using rest [OF grown_trans [OF g that(1)] that(2)] .
      have here: "simulates h1 (renderS H n t' ctx ps) (render H n t' ctxp reg)" for t'
        using rest [OF g w1] .
      note path = resolvePathS_sim [OF w1 cv, of H, unfolded cd]
      show ?thesis
      proof (cases "matchPartial remaining")
        case (Some found)
        obtain name len where f: "found = (name, len)" by (cases found)
        note look = lookupPartial_sim [OF w1 p(1), of H name, unfolded p(2)]
        show ?thesis
        proof (cases "getPropS H h1 ps name")
          case (Inl e)
          with look have "lookupPartial H reg name = Inl e" by simp
          with Inl Some f w1 show ?thesis
            unfolding body bodyp by (simp add: simulates_def)
        next
          case (Inr w)
          with look have l: "lookupPartial H reg name = Inr (decode h1 w)"
            and v: "validVal (length h1) w"
            by simp_all
          note tr = truthyS_sim [OF w1 v, of H]
          have sh: "(\<exists>text. w = HStr text) \<or> (\<forall>text. w \<noteq> HStr text \<and> decode h1 w \<noteq> Str text)"
            using decode_valid_shape [OF w1 v] by blast
          have first: "simulates h1
              (if \<not> truthyS H w then give (warnMissing name)
               else case w of
                      HStr text \<Rightarrow> renderS H n text ctx ps
                    | _ \<Rightarrow> (\<lambda>h. case nonStringTemplate H (decode h w) of
                              Inl e \<Rightarrow> (Some (Inl e), h)
                            | Inr out \<Rightarrow> (emitText out, h)))
              (if \<not> truthy H (decode h1 w) then warnMissing name
               else case decode h1 w of
                      Str text \<Rightarrow> render H n text ctxp reg
                    | _ \<Rightarrow> (case nonStringTemplate H (decode h1 w) of
                              Inl e \<Rightarrow> Some (Inl e)
                            | Inr out \<Rightarrow> emitText out))"
          proof (cases "truthyS H w")
            case False
            with tr w1 show ?thesis by simp
          next
            case True
            from sh show ?thesis
            proof
              assume "\<exists>text. w = HStr text"
              then obtain str where "w = HStr str" ..
              with True tr here show ?thesis by simp
            next
              assume no: "\<forall>text. w \<noteq> HStr text \<and> decode h1 w \<noteq> Str text"
              have "simulates h1 (\<lambda>h. case nonStringTemplate H (decode h w) of
                              Inl e \<Rightarrow> (Some (Inl e), h)
                            | Inr out \<Rightarrow> (emitText out, h))
                      (case nonStringTemplate H (decode h1 w) of
                              Inl e \<Rightarrow> Some (Inl e)
                            | Inr out \<Rightarrow> emitText out)"
                using w1 by (simp add: simulates_def split: sum.splits)
              with True tr no show ?thesis
                by (cases w; cases "decode h1 w") (simp_all del: decode.simps)
            qed
          qed
          have "simulates h1
              (seqS
                (if \<not> truthyS H w then give (warnMissing name)
                 else case w of
                        HStr text \<Rightarrow> renderS H n text ctx ps
                      | _ \<Rightarrow> (\<lambda>h. case nonStringTemplate H (decode h w) of
                                Inl e \<Rightarrow> (Some (Inl e), h)
                              | Inr out \<Rightarrow> (emitText out, h)))
                (renderS H n (drop len remaining) ctx ps))
              (andThen
                (if \<not> truthy H (decode h1 w) then warnMissing name
                 else case decode h1 w of
                        Str text \<Rightarrow> render H n text ctxp reg
                      | _ \<Rightarrow> (case nonStringTemplate H (decode h1 w) of
                                Inl e \<Rightarrow> Some (Inl e)
                              | Inr out \<Rightarrow> emitText out))
                (render H n (drop len remaining) ctxp reg))"
            using first next1 by (rule simulates_seqS)
          then show ?thesis
            unfolding body bodyp using Some f Inr l
            by (simp add: simulates_def del: decode.simps)
        qed
      next
        case noPartial: None
        show ?thesis
        proof (cases "matchBlock Each remaining")
          case (Some found)
          obtain pth len where f: "found = (pth, len)" by (cases found)
          obtain b r where fb: "findBlockEnd (drop len remaining) Each = (b, r)"
            by (cases "findBlockEnd (drop len remaining) Each")
          show ?thesis
          proof (cases "resolvePathS H h1 ctx pth")
            case (Inl e)
            with path [of pth] have "resolvePath H (Obj ctxp) pth = Inl e" by simp
            with Inl noPartial Some f fb w1 show ?thesis
              unfolding body bodyp by (simp add: simulates_def)
          next
            case (Inr w)
            with path [of pth] have l: "resolvePath H (Obj ctxp) pth = Inr (decode h1 w)"
              and v: "validVal (length h1) w"
              by simp_all
            note el = elementsOfS_sim [OF w1 v, of H]
            have first: "simulates h1
                (case elementsOfS H h1 w of
                   Some items \<Rightarrow>
                     forEachS (\<lambda>(item, index) h.
                         case alloc (itemContextS (ownProps h ctx) items item index) h of
                           (itemCtx, h1) \<Rightarrow> renderS H n b itemCtx ps h1)
                       (zip items [0..<length items])
                 | None \<Rightarrow> give (emitText []))
                (case elementsOf H (decode h1 w) of
                   Some items \<Rightarrow>
                     joinAll (map (\<lambda>(item, index).
                                render H n b (itemContext ctxp items item index) reg)
                              (zip items [0..<length items]))
                 | None \<Rightarrow> emitText [])"
            proof (cases "elementsOfS H h1 w")
              case None
              with el w1 show ?thesis by simp
            next
              case (Some items)
              with el have e: "elementsOf H (decode h1 w) = Some (map (decode h1) items)"
                and iv: "list_all (validVal (length h1)) items"
                by simp_all
              have one: "simulates h2
                  ((\<lambda>(item, index) h.
                         case alloc (itemContextS (ownProps h ctx) items item index) h of
                           (itemCtx, h1) \<Rightarrow> renderS H n b itemCtx ps h1) x)
                  ((\<lambda>(item, index).
                       render H n b (itemContext ctxp (map (decode h1) items) (decode h1 item) index) reg) x)"
                if x: "x \<in> set (zip items [0..<length items])" and g2: "grown h1 h2"
                  and w2: "wfStore h2" for x h2
              proof -
                obtain item index where xi: "x = (item, index)" by (cases x)
                with x have "item \<in> set items" by (auto dest: set_zip_leftD)
                with iv have "validVal (length h1) item" by (simp add: list_all_iff)
                then have itv: "validVal (length h2) item"
                  using grown_length [OF g2] by (rule validVal_mono)
                have isv: "list_all (validVal (length h2)) items"
                  using iv grown_length [OF g2] by (auto simp: list_all_iff intro: validVal_mono)
                have c2: "contextAt h2 ctx = Some kvs"
                  using contextAt_grown [OF c(1) g2] .
                have p2: "registryAt h2 ps = Some pkvs"
                  using registryAt_grown [OF p(1) g2] .
                have d2: "decodeProps h2 kvs = ctxp"
                  using decodeProps_grown [OF g2] contextAt_valid [OF w1 c(1)] c(2) by simp
                have m2: "map (decode h2) items = map (decode h1) items"
                  using iv decode_grown [OF g2] by (induction items) (simp_all del: decode.simps)
                have i2: "decode h2 item = decode h1 item"
                  using decode_grown [OF g2 \<open>validVal (length h1) item\<close>] .
                from itemContextS_sim [OF w2 c2 isv itv p2, of index]
                have "stands (itemContextS (ownProps h2 ctx) items item index # h2) (HRef (length h2)) ps
                   (itemContext ctxp (map (decode h1) items) (decode h1 item) index) reg"
                  by (simp only: d2 m2 i2 p(2))
                from ih [OF this, of b]
                have "simulates (itemContextS (ownProps h2 ctx) items item index # h2)
                        (renderS H n b (HRef (length h2)) ps)
                        (render H n b (itemContext ctxp (map (decode h1) items) (decode h1 item) index) reg)" .
                then show ?thesis
                  unfolding xi
                  by (auto simp: simulates_def alloc_def intro: grown_trans [OF grown_Cons])
              qed
              have "simulates h1
                 (forEachS (\<lambda>(item, index) h.
                         case alloc (itemContextS (ownProps h ctx) items item index) h of
                           (itemCtx, h1) \<Rightarrow> renderS H n b itemCtx ps h1)
                       (zip items [0..<length items]))
                 (joinAll (map (\<lambda>(item, index).
                       render H n b (itemContext ctxp (map (decode h1) items) (decode h1 item) index) reg)
                     (zip items [0..<length items])))"
                using one w1 by (rule simulates_forEachS)
              then show ?thesis
                using Some e
                zip_map_index [of "\<lambda>item index. render H n b (itemContext ctxp (map (decode h1) items) item index) reg"
                   "decode h1" items]
                by (simp del: decode.simps)
            qed
            have "simulates h1
                (seqS
                  (case elementsOfS H h1 w of
                   Some items \<Rightarrow>
                     forEachS (\<lambda>(item, index) h.
                         case alloc (itemContextS (ownProps h ctx) items item index) h of
                           (itemCtx, h1) \<Rightarrow> renderS H n b itemCtx ps h1)
                       (zip items [0..<length items])
                 | None \<Rightarrow> give (emitText []))
                  (renderS H n r ctx ps))
                (andThen
                  (case elementsOf H (decode h1 w) of
                   Some items \<Rightarrow>
                     joinAll (map (\<lambda>(item, index).
                                render H n b (itemContext ctxp items item index) reg)
                              (zip items [0..<length items]))
                 | None \<Rightarrow> emitText [])
                  (render H n r ctxp reg))"
              using first next1 by (rule simulates_seqS)
            then show ?thesis
              unfolding body bodyp using noPartial Some f fb Inr l
              by (simp add: simulates_def del: decode.simps)
          qed
        next
          case noEach: None
          show ?thesis
          proof (cases "matchBlock If remaining")
            case (Some found)
            obtain pth len where f: "found = (pth, len)" by (cases found)
            obtain b r where fb: "findBlockEnd (drop len remaining) If = (b, r)"
              by (cases "findBlockEnd (drop len remaining) If")
            obtain ifBody elseBody where sp: "splitElse b = (ifBody, elseBody)"
              by (cases "splitElse b")
            show ?thesis
            proof (cases "resolvePathS H h1 ctx pth")
              case (Inl e)
              with path [of pth] have "resolvePath H (Obj ctxp) pth = Inl e" by simp
              with Inl noPartial noEach Some f fb w1 show ?thesis
                unfolding body bodyp by (simp add: simulates_def)
            next
              case (Inr w)
              with path [of pth] have l: "resolvePath H (Obj ctxp) pth = Inr (decode h1 w)"
                and v: "validVal (length h1) w"
                by simp_all
              note tr = truthyS_sim [OF w1 v, of H]
              have "simulates h1
                  (seqS (renderS H n (if truthyS H w then ifBody else elseBody) ctx ps)
                        (renderS H n r ctx ps))
                  (andThen (render H n (if truthy H (decode h1 w) then ifBody else elseBody) ctxp reg)
                        (render H n r ctxp reg))"
                unfolding tr using here next1 by (rule simulates_seqS)
              then show ?thesis
                unfolding body bodyp using noPartial noEach Some f fb sp Inr l
                by (simp add: simulates_def del: decode.simps)
            qed
          next
            case noIf: None
            show ?thesis
            proof (cases "matchBlock Unless remaining")
              case (Some found)
              obtain pth len where f: "found = (pth, len)" by (cases found)
              obtain b r where fb: "findBlockEnd (drop len remaining) Unless = (b, r)"
                by (cases "findBlockEnd (drop len remaining) Unless")
              show ?thesis
              proof (cases "resolvePathS H h1 ctx pth")
                case (Inl e)
                with path [of pth] have "resolvePath H (Obj ctxp) pth = Inl e" by simp
                with Inl noPartial noEach noIf Some f fb w1 show ?thesis
                  unfolding body bodyp by (simp add: simulates_def)
              next
                case (Inr w)
                with path [of pth] have l: "resolvePath H (Obj ctxp) pth = Inr (decode h1 w)"
                  and v: "validVal (length h1) w"
                  by simp_all
                note tr = truthyS_sim [OF w1 v, of H]
                have first: "simulates h1
                    (if \<not> truthyS H w then renderS H n b ctx ps else give (emitText []))
                    (if \<not> truthy H (decode h1 w) then render H n b ctxp reg else emitText [])"
                  unfolding tr using here w1 by simp
                have "simulates h1
                    (seqS (if \<not> truthyS H w then renderS H n b ctx ps else give (emitText []))
                          (renderS H n r ctx ps))
                    (andThen (if \<not> truthy H (decode h1 w) then render H n b ctxp reg else emitText [])
                          (render H n r ctxp reg))"
                  using first next1 by (rule simulates_seqS)
                then show ?thesis
                  unfolding body bodyp using noPartial noEach noIf Some f fb Inr l
                  by (simp add: simulates_def del: decode.simps)
              qed
            next
              case noUnless: None
              show ?thesis
              proof (cases "matchVar remaining")
                case (Some found)
                obtain pth len where f: "found = (pth, len)" by (cases found)
                show ?thesis
                proof (cases "resolvePathS H h1 ctx pth")
                  case (Inl e)
                  with path [of pth] have "resolvePath H (Obj ctxp) pth = Inl e" by simp
                  with Inl noPartial noEach noIf noUnless Some f w1 show ?thesis
                    unfolding body bodyp by (simp add: simulates_def)
                next
                  case (Inr w)
                  with path [of pth] have l: "resolvePath H (Obj ctxp) pth = Inr (decode h1 w)"
                    and v: "validVal (length h1) w"
                    by simp_all
                  have sh: "(decode h1 w = Undefined \<longleftrightarrow> w = HUndefined) \<and>
                            (decode h1 w = Null \<longleftrightarrow> w = HNull)"
                    using decode_valid_shape [OF w1 v] by blast
                  have first: "simulates h1
                      (if w \<noteq> HUndefined \<and> w \<noteq> HNull then give (emitStringS H h1 w)
                       else give (emitText []))
                      (if decode h1 w \<noteq> Undefined \<and> decode h1 w \<noteq> Null
                       then emitString H (decode h1 w) else emitText [])"
                    using sh w1 by (simp add: emitStringS_def emitString_def toStrS_def del: decode.simps)
                  have "simulates h1
                      (seqS (if w \<noteq> HUndefined \<and> w \<noteq> HNull then give (emitStringS H h1 w)
                             else give (emitText []))
                            (renderS H n (drop len remaining) ctx ps))
                      (andThen (if decode h1 w \<noteq> Undefined \<and> decode h1 w \<noteq> Null
                                then emitString H (decode h1 w) else emitText [])
                            (render H n (drop len remaining) ctxp reg))"
                    using first next1 by (rule simulates_seqS)
                  then show ?thesis
                    unfolding body bodyp using noPartial noEach noIf noUnless Some f Inr l
                    by (simp add: simulates_def del: decode.simps)
                qed
              next
                case None
                have "simulates h1
                    (seqS (give (emitText ''{{'')) (renderS H n (drop 2 remaining) ctx ps))
                    (andThen (emitText ''{{'') (render H n (drop 2 remaining) ctxp reg))"
                  using simulates_give [OF w1] next1 by (rule simulates_seqS)
                then show ?thesis
                  unfolding body bodyp using noPartial noEach noIf noUnless None
                  by simp
              qed
            qed
          qed
        qed
      qed
    qed
    have "simulates h (seqS (give (emitText (take tagIdx t))) body)
            (andThen (emitText (take tagIdx t)) bodyp)"
      if "\<And>h1. grown h h1 \<Longrightarrow> wfStore h1 \<Longrightarrow> simulates h1 body bodyp" for body bodyp
      using simulates_give [OF wf] that by (rule simulates_seqS)
    from this [OF tail] t show ?thesis
      unfolding unf by (simp add: remaining_def [symmetric] Let_def)
  qed
qed

section \<open>Rendering is a function of its arguments and writes to none of them\<close>

lemma decode_registry:
  assumes "wfStore h" "registryAt h ps = Some pkvs" "grown h h'"
  shows "decode h' ps = decode h ps"
proof -
  from assms(2) obtain p where "ps = HRef p" "cellAt h p = Some (CObj pkvs)"
    by (auto simp: registryAt_def split: hval.splits option.splits cell.splits if_splits)
  then have "validVal (length h) ps"
    using cellAt_less by auto
  with assms(3) show ?thesis by (rule decode_grown)
qed

lemma render_same_returns:
  assumes "render H n t c p = Some x" "render H m t c p = Some y"
  shows "y = x"
proof (cases "n \<le> m")
  case True
  from render_below [OF this, of H t c p] assms show ?thesis
    by (simp add: below_def)
next
  case False
  then have "m \<le> n" by simp
  from render_below [OF this, of H t c p] assms show ?thesis
    by (simp add: below_def)
qed

text \<open>
  C8. Let a call of \<^verbatim>\<open>render\<close> start in a store \<open>h\<close> where its context is a mapping and its
  registry a mapping of texts, and end with the result \<open>r\<close> in the store \<open>h'\<close>. Then \<open>h'\<close> is
  \<open>h\<close> with new objects in front (the contexts of the each iterations): every object of
  \<open>h\<close>, the context and the registry among them, is at its address as it was, and the
  context and the registry stand for the values they stood for. The result is that of
  the renderer on values, so it depends on the template, the value of the context and
  the texts of the registry alone: a call in any store \<open>g\<close> whose arguments stand for the
  same values, wherever \<open>g\<close> keeps them, gives \<open>r\<close> again, with less or more fuel it gives
  the same string if it returns one, and so does the same call repeated in \<open>h'\<close>.
\<close>

theorem render_pure_on_store:
  assumes "wfStore h" and "contextAt h ctx = Some kvs" and "registryAt h ps = Some pkvs"
    and "renderS H n t ctx ps h = (r, h')"
  shows "grown h h' \<and> wfStore h' \<and>
         (\<forall>a. a < length h \<longrightarrow> cellAt h' a = cellAt h a) \<and>
         contextAt h' ctx = Some kvs \<and> registryAt h' ps = Some pkvs \<and>
         decode h' ctx = decode h ctx \<and> decode h' ps = decode h ps \<and>
         r = render H n t (decodeProps h kvs) (textsOf pkvs) \<and>
         (wfStore g \<and> contextAt g ctx' = Some kvs' \<and> registryAt g ps' = Some pkvs' \<and>
            decodeProps g kvs' = decodeProps h kvs \<and> textsOf pkvs' = textsOf pkvs \<longrightarrow>
            fst (renderS H n t ctx' ps' g) = r \<and>
            (\<forall>x y. r = Some x \<and> fst (renderS H m t ctx' ps' g) = Some y \<longrightarrow> y = x)) \<and>
         fst (renderS H n t ctx ps h') = r"
proof -
  have st: "stands h ctx ps (decodeProps h kvs) (textsOf pkvs)"
    using assms(1-3) by (simp add: stands_def)
  from renderS_simulates [OF st, of H n t] assms(4)
  have r: "r = render H n t (decodeProps h kvs) (textsOf pkvs)"
    and g: "grown h h'" and wf': "wfStore h'"
    by (simp_all add: simulates_def)
  have cells: "\<forall>a. a < length h \<longrightarrow> cellAt h' a = cellAt h a"
    using cellAt_grown [OF g] by blast
  have c': "contextAt h' ctx = Some kvs"
    using contextAt_grown [OF assms(2) g] .
  have p': "registryAt h' ps = Some pkvs"
    using registryAt_grown [OF assms(3) g] .
  have dc: "decode h' ctx = decode h ctx"
    using decode_grown [OF g] contextAt_valid [OF assms(1,2)] by simp
  have dp: "decode h' ps = decode h ps"
    using decode_registry [OF assms(1,3) g] .
  have other: "fst (renderS H k t ctx' ps' g) = render H k t (decodeProps h kvs) (textsOf pkvs)"
    if "wfStore g" "contextAt g ctx' = Some kvs'" "registryAt g ps' = Some pkvs'"
      "decodeProps g kvs' = decodeProps h kvs" "textsOf pkvs' = textsOf pkvs" for k
  proof -
    have "stands g ctx' ps' (decodeProps h kvs) (textsOf pkvs)"
      using that by (simp add: stands_def)
    from renderS_simulates [OF this, of H k t] show ?thesis
      by (simp add: simulates_def)
  qed
  have again: "fst (renderS H n t ctx ps h') = r"
  proof -
    have "stands h' ctx ps (decodeProps h kvs) (textsOf pkvs)"
      using stands_grown [OF st g wf'] .
    from renderS_simulates [OF this, of H n t] r show ?thesis
      by (simp add: simulates_def)
  qed
  have any: "fst (renderS H n t ctx' ps' g) = r \<and>
            (\<forall>x y. r = Some x \<and> fst (renderS H m t ctx' ps' g) = Some y \<longrightarrow> y = x)"
    if "wfStore g \<and> contextAt g ctx' = Some kvs' \<and> registryAt g ps' = Some pkvs' \<and>
            decodeProps g kvs' = decodeProps h kvs \<and> textsOf pkvs' = textsOf pkvs"
    using that other [of n] other [of m] r render_same_returns
    by (metis (no_types, lifting))
  from g wf' cells c' p' dc dp r any again show ?thesis
    by blast
qed

theorem render_pure_on_store_witness:
  "wfStore exampleStore \<and> contextAt exampleStore (HRef 3) \<noteq> None \<and>
   registryAt exampleStore (HRef 4) \<noteq> None \<and>
   renderS stdHost 8 ''{{> head}}{{#each xs}}{{@index}}:{{this}} {{/each}}.'' (HRef 3) (HRef 4)
       exampleStore =
     (Some (Inr (''<S>0:5 1:9 .'', [])),
      [CObj [(''xs'', HRef 2), (''site'', HRef 0), (''this'', HNum 9), (''@index'', HNum 1),
             (''@first'', HBool False), (''@last'', HBool True)],
       CObj [(''xs'', HRef 2), (''site'', HRef 0), (''this'', HNum 5), (''@index'', HNum 0),
             (''@first'', HBool True), (''@last'', HBool False)]] @ exampleStore) \<and>
   length exampleStore = 5 \<and>
   cellAt ([CObj [(''xs'', HRef 2), (''site'', HRef 0), (''this'', HNum 9), (''@index'', HNum 1),
             (''@first'', HBool False), (''@last'', HBool True)],
       CObj [(''xs'', HRef 2), (''site'', HRef 0), (''this'', HNum 5), (''@index'', HNum 0),
             (''@first'', HBool True), (''@last'', HBool False)]] @ exampleStore) 3 =
     cellAt exampleStore 3 \<and>
   wfStore otherStore \<and>
   fst (renderS stdHost 8 ''{{> head}}{{#each xs}}{{@index}}:{{this}} {{/each}}.'' (HRef 2) (HRef 3)
       otherStore) = Some (Inr (''<S>0:5 1:9 .'', [])) \<and>
   fst (renderS stdHost 8 ''{{> head}}{{#each xs}}{{@index}}:{{this}} {{/each}}.'' (HRef 3) (HRef 4)
       ([CObj [(''xs'', HRef 2), (''site'', HRef 0), (''this'', HNum 9), (''@index'', HNum 1),
             (''@first'', HBool False), (''@last'', HBool True)],
       CObj [(''xs'', HRef 2), (''site'', HRef 0), (''this'', HNum 5), (''@index'', HNum 0),
             (''@first'', HBool True), (''@last'', HBool False)]] @ exampleStore)) =
     Some (Inr (''<S>0:5 1:9 .'', []))"
proof -
  define new where "new =
      [CObj [(''xs'', HRef 2), (''site'', HRef 0), (''this'', HNum 9), (''@index'', HNum 1),
             (''@first'', HBool False), (''@last'', HBool True)],
       CObj [(''xs'', HRef 2), (''site'', HRef 0), (''this'', HNum 5), (''@index'', HNum 0),
             (''@first'', HBool True), (''@last'', HBool False)]]"
  have wf: "wfStore exampleStore"
    by code_simp
  have c: "contextAt exampleStore (HRef 3) = Some [(''xs'', HRef 2), (''site'', HRef 0)]"
    by code_simp
  have p: "registryAt exampleStore (HRef 4) = Some [(''head'', HStr ''<{{site.name}}>'')]"
    by code_simp
  have run: "renderS stdHost 8 ''{{> head}}{{#each xs}}{{@index}}:{{this}} {{/each}}.'' (HRef 3) (HRef 4)
       exampleStore = (Some (Inr (''<S>0:5 1:9 .'', [])), new @ exampleStore)"
    unfolding new_def by code_simp
  have len: "length exampleStore = 5"
    by code_simp
  have wf2: "wfStore otherStore"
    by code_simp
  have c2: "contextAt otherStore (HRef 2) = Some [(''xs'', HRef 1), (''site'', HRef 0)]"
    by code_simp
  have p2: "registryAt otherStore (HRef 3) = Some [(''head'', HStr ''<{{site.name}}>'')]"
    by code_simp
  have d2: "decodeProps otherStore [(''xs'', HRef 1), (''site'', HRef 0)] =
            decodeProps exampleStore [(''xs'', HRef 2), (''site'', HRef 0)]"
    by code_simp
  note inst = render_pure_on_store [OF wf c p run, of otherStore "HRef 2"
      "[(''xs'', HRef 1), (''site'', HRef 0)]" "HRef 3" "[(''head'', HStr ''<{{site.name}}>'')]" 8]
  from inst len have cell: "cellAt (new @ exampleStore) 3 = cellAt exampleStore 3"
    by simp
  from inst wf2 c2 p2 d2
  have other: "fst (renderS stdHost 8 ''{{> head}}{{#each xs}}{{@index}}:{{this}} {{/each}}.''
       (HRef 2) (HRef 3) otherStore) = Some (Inr (''<S>0:5 1:9 .'', []))"
    by simp
  from inst
  have again: "fst (renderS stdHost 8 ''{{> head}}{{#each xs}}{{@index}}:{{this}} {{/each}}.''
       (HRef 3) (HRef 4) (new @ exampleStore)) = Some (Inr (''<S>0:5 1:9 .'', []))"
    by simp
  from wf c p run len cell wf2 other again show ?thesis
    unfolding new_def by simp
qed

end
